theory Spec2Isabelle
  imports Main "HOL-Library.Log_Nat"
begin

section \<open>The WhatsApp dataset generator (generate-whatsapp-dataset.py)\<close>

text \<open>
  A shallow embedding of the generator script. Python integers are \<open>int\<close>, Python
  strings are \<open>string\<close>, a row is the list of its four fields, as in the source.
  The builtins the script relies on are modelled first: decimal formatting of integers
  (\<open>str\<close>, the format \<open>016d\<close>), the double-precision product \<open>int * float\<close>,
  \<open>math.floor\<close> and \<open>random.choice\<close>.
\<close>

subsection \<open>Decimal formatting\<close>

definition digit_char :: "int \<Rightarrow> char" where
  "digit_char d = ''0123456789'' ! nat d"

text \<open>The decimal digits of a non-negative integer, most significant first.\<close>

function digits_of :: "int \<Rightarrow> string" where
  "digits_of n = (if n < 10 then [digit_char n] else digits_of (n div 10) @ [digit_char (n mod 10)])"
  by pat_completeness auto
termination
  by (relation "measure nat") auto

declare digits_of.simps [simp del]

text \<open>Python's \<open>str(i)\<close> for an integer.\<close>

definition str_int :: "int \<Rightarrow> string" where
  "str_int i = (if i < 0 then CHR ''-'' # digits_of (- i) else digits_of i)"

definition zero_fill :: "nat \<Rightarrow> string \<Rightarrow> string" where
  "zero_fill w s = replicate (w - length s) CHR ''0'' @ s"

text \<open>
  The format specification \<open>016d\<close>: sign-aware zero padding to a minimum width of 16
  characters, the sign counted in the width. A longer number is never truncated.
\<close>

definition format_016d :: "int \<Rightarrow> string" where
  "format_016d x =
     (if x < 0 then CHR ''-'' # zero_fill 15 (digits_of (- x))
      else zero_fill 16 (digits_of x))"

subsection \<open>Python floats: the product with an integer, and its floor\<close>

text \<open>
  A Python float is an IEEE 754 binary64 value: a finite value (a rational here), an
  infinity or a NaN. The sign of a zero is not kept: \<open>math.floor\<close> maps both zeros
  to the integer 0, and nothing else in the script reads a float.
\<close>

datatype pyfloat = Finite rat | PosInf | NegInf | NaN

datatype py_error = ValueError | OverflowError

definition scale2 :: "int \<Rightarrow> rat" where
  "scale2 k = (if 0 \<le> k then 2 ^ nat k else 1 / 2 ^ nat (- k))"

text \<open>The binary exponent of a positive rational: \<open>scale2 (ilog2 q) \<le> q < scale2 (ilog2 q + 1)\<close>.\<close>

definition ilog2 :: "rat \<Rightarrow> int" where
  "ilog2 q = (if 1 \<le> q then bitlen \<lfloor>q\<rfloor> - 1 else - bitlen (\<lceil>1 / q\<rceil> - 1))"

definition round_half_even :: "rat \<Rightarrow> int" where
  "round_half_even q =
     (let f = \<lfloor>q\<rfloor>; d = q - of_int f
      in if d < 1 / 2 then f else if 1 / 2 < d then f + 1 else if even f then f else f + 1)"

text \<open>
  Rounding to the nearest value with a 53-bit significand and an exponent of at least
  -1022 (subnormal numbers share the exponent -1022), ties to even; the exponent is not
  bounded above here, the callers test the result against \<open>2 ^ 1024\<close>.
\<close>

definition round_double :: "rat \<Rightarrow> rat" where
  "round_double q =
     (if q = 0 then 0
      else let e = max (ilog2 \<bar>q\<bar>) (- 1022); u = scale2 (e - 52)
           in of_int (round_half_even (q / u)) * u)"

definition double_limit :: rat where
  "double_limit = 2 ^ 1024"

text \<open>
  The conversion of the integer operand of \<open>int * float\<close>: correctly rounded, and
  \<open>OverflowError\<close> (int too large to convert to float) when the result is out of range.
\<close>

definition int_to_float :: "int \<Rightarrow> py_error + pyfloat" where
  "int_to_float n =
     (let r = round_double (of_int n)
      in if double_limit \<le> \<bar>r\<bar> then Inl OverflowError else Inr (Finite r))"

definition inf_times :: "rat \<Rightarrow> pyfloat" where
  "inf_times b = (if 0 < b then PosInf else if b < 0 then NegInf else NaN)"

text \<open>The product of two floats never raises: it overflows to an infinity.\<close>

fun float_mul :: "pyfloat \<Rightarrow> pyfloat \<Rightarrow> pyfloat" where
  "float_mul NaN y = NaN"
| "float_mul x NaN = NaN"
| "float_mul (Finite a) (Finite b) =
     (let r = round_double (a * b)
      in if double_limit \<le> \<bar>r\<bar> then (if 0 < r then PosInf else NegInf) else Finite r)"
| "float_mul (Finite a) PosInf = inf_times a"
| "float_mul (Finite a) NegInf = inf_times (- a)"
| "float_mul PosInf (Finite b) = inf_times b"
| "float_mul NegInf (Finite b) = inf_times (- b)"
| "float_mul PosInf PosInf = PosInf"
| "float_mul PosInf NegInf = NegInf"
| "float_mul NegInf PosInf = NegInf"
| "float_mul NegInf NegInf = PosInf"

definition int_mul_float :: "int \<Rightarrow> pyfloat \<Rightarrow> py_error + pyfloat" where
  "int_mul_float n x =
     (case int_to_float n of Inl e \<Rightarrow> Inl e | Inr y \<Rightarrow> Inr (float_mul y x))"

text \<open>
  \<open>math.floor\<close> of a float: \<open>ValueError\<close> on a NaN (cannot convert float NaN to
  integer), \<open>OverflowError\<close> on an infinity, the exact integer otherwise.
\<close>

fun math_floor :: "pyfloat \<Rightarrow> py_error + int" where
  "math_floor (Finite q) = Inr \<lfloor>q\<rfloor>"
| "math_floor PosInf = Inl OverflowError"
| "math_floor NegInf = Inl OverflowError"
| "math_floor NaN = Inl ValueError"

subsection \<open>The random generator\<close>

text \<open>
  The generator of the \<open>random\<close> module is a parameter: \<open>randbelow n g\<close> is the
  library's draw of an index below \<open>n\<close> from the generator state \<open>g\<close>, with the state
  after the draw. \<open>random.choice(seq)\<close> is \<open>seq[randbelow(len(seq))]\<close>.
\<close>

type_synonym 'g randbelow = "nat \<Rightarrow> 'g \<Rightarrow> nat \<times> 'g"

definition random_choice :: "'g randbelow \<Rightarrow> 'a list \<Rightarrow> 'g \<Rightarrow> 'a \<times> 'g" where
  "random_choice rb seq g = (let (k, g') = rb (length seq) g in (seq ! k, g'))"

subsection \<open>The pools\<close>

definition VALID_PHONES :: "string list" where
  "VALID_PHONES =
     [''081234567890'', ''085678901234'', ''082345678901'', ''083456789012'', ''087890123456'']"

definition UNIFORM_PHONES :: "string list" where
  "UNIFORM_PHONES =
     [''081234567890'', ''6285678901234'', ''082345678901'', ''0834-5678-9012'', ''85678901234'']"

definition INVALID_PHONES :: "string list" where
  "INVALID_PHONES =
     [''+630123456'', ''7123456789'', ''08123'', ''abcde12345'', '''', ''620123456789'']"

definition VALID_NAMES :: "string list" where
  "VALID_NAMES =
     [''DEWI LESTARI SARI'', ''MAYA SARI PUTRI'', ''RINA PERMATA ANGGRAINI'',
      ''LINDA MARLINA SIREGAR'']"

definition INVALID_NAMES :: "string list" where
  "INVALID_NAMES =
     [''INVALID FORMAT ONE'', ''INVALID FORMAT TWO'', ''INVALID FORMAT THREE'',
      ''INVALID FORMAT FOUR'']"

subsection \<open>Configuration and parse_args\<close>

datatype mode = Valid | Invalid | Mixed | Uniform

record args =
  output_path :: string
  records :: int
  mode :: mode
  valid_ratio :: pyfloat
  patients_json :: string
  date :: string

text \<open>
  The command line after argparse has converted each option that is present
  (\<open>type=int\<close>, \<open>type=float\<close>, \<open>choices\<close>); an absent option is \<open>None\<close>.
\<close>

record cmdline =
  opt_output :: "string option"
  opt_records :: "int option"
  opt_mode :: "mode option"
  opt_valid_ratio :: "pyfloat option"
  opt_patients_json :: "string option"
  opt_date :: "string option"

text \<open>
  \<open>today\<close> is the clock's current UTC date, formatted day-month-year: the default of
  \<open>--date\<close>.
\<close>

definition parse_args :: "string \<Rightarrow> cmdline \<Rightarrow> args" where
  "parse_args today cl =
     \<lparr> output_path = (case opt_output cl of None \<Rightarrow> ''outputs/samples/generated-whatsapp.csv'' | Some p \<Rightarrow> p),
       records = (case opt_records cl of None \<Rightarrow> 1000 | Some n \<Rightarrow> n),
       mode = (case opt_mode cl of None \<Rightarrow> Valid | Some m \<Rightarrow> m),
       valid_ratio = (case opt_valid_ratio cl of None \<Rightarrow> Finite (1 / 2) | Some r \<Rightarrow> r),
       patients_json = (case opt_patients_json cl of None \<Rightarrow> '''' | Some p \<Rightarrow> p),
       date = (case opt_date cl of None \<Rightarrow> today | Some d \<Rightarrow> d) \<rparr>"

subsection \<open>make_nik and build_rows\<close>

definition make_nik :: "int \<Rightarrow> int \<Rightarrow> string" where
  "make_nik base idx = format_016d (base + idx)"

definition header :: "string list" where
  "header = [''last_updated_date'', ''nik_identifier'', ''name'', ''phone_number'']"

text \<open>The variables the loop of build_rows updates, and the generator.\<close>

record 'g build_state =
  rows :: "string list list"
  valid_count :: int
  gen :: 'g

text \<open>Python's \<open>pool[i % len(pool)]\<close>.\<close>

definition cyclic :: "'a list \<Rightarrow> int \<Rightarrow> 'a" where
  "cyclic pool i = pool ! nat (i mod int (length pool))"

text \<open>One iteration of the loop, at index \<open>i\<close>.\<close>

definition build_step :: "'g randbelow \<Rightarrow> args \<Rightarrow> int \<Rightarrow> int \<Rightarrow> 'g build_state \<Rightarrow> 'g build_state" where
  "build_step rb a valid_target i s =
     (if mode a = Invalid then
        (let nik_seed = make_nik 9000000000000000 i;
             phone = cyclic INVALID_PHONES i;
             nik_value = (if phone = '''' then '''' else nik_seed);
             name = cyclic INVALID_NAMES i
         in s\<lparr>rows := rows s @ [[date a, nik_value, name, phone]]\<rparr>)
      else if mode a = Mixed then
        (if valid_count s < valid_target then
           (let nik = make_nik 3200000000000000 i;
                phone = cyclic VALID_PHONES i;
                name = cyclic VALID_NAMES i
            in s\<lparr>rows := rows s @ [[date a, nik, name, phone]],
                 valid_count := valid_count s + 1\<rparr>)
         else
           (let nik_seed = make_nik 9000000000000000 i;
                phone = cyclic INVALID_PHONES i;
                nik_value = (if phone = '''' then '''' else nik_seed);
                name = cyclic INVALID_NAMES i
            in s\<lparr>rows := rows s @ [[date a, nik_value, name, phone]]\<rparr>))
      else if mode a = Uniform then
        (let nik = make_nik 3100000000000000 i;
             phone = cyclic UNIFORM_PHONES i;
             name = ''PATIENT_'' @ str_int (i + 1)
         in s\<lparr>rows := rows s @ [[date a, nik, name, phone]]\<rparr>)
      else
        (let nik = make_nik 3300000000000000 i;
             (phone, g1) = random_choice rb VALID_PHONES (gen s);
             (name, g2) = random_choice rb VALID_NAMES g1
         in s\<lparr>rows := rows s @ [[date a, nik, name, phone]], gen := g2\<rparr>))"

text \<open>
  \<open>int(math.floor(args.records * args.valid_ratio))\<close>, evaluated before the loop in
  every mode.
\<close>

definition valid_target_of :: "args \<Rightarrow> py_error + int" where
  "valid_target_of a =
     (case int_mul_float (records a) (valid_ratio a) of
        Inl e \<Rightarrow> Inl e
      | Inr p \<Rightarrow> math_floor p)"

text \<open>\<open>range(args.records)\<close> is \<open>[0..records a - 1]\<close>, empty when \<open>records a \<le> 0\<close>.\<close>

definition build_loop :: "'g randbelow \<Rightarrow> args \<Rightarrow> int \<Rightarrow> 'g \<Rightarrow> 'g build_state" where
  "build_loop rb a valid_target g =
     fold (build_step rb a valid_target) [0..records a - 1]
       \<lparr>rows = [header], valid_count = 0, gen = g\<rparr>"

definition build_rows :: "'g randbelow \<Rightarrow> args \<Rightarrow> 'g \<Rightarrow> py_error + (string list list \<times> 'g)" where
  "build_rows rb a g =
     (case valid_target_of a of
        Inl e \<Rightarrow> Inl e
      | Inr valid_target \<Rightarrow>
          (let s = build_loop rb a valid_target g in Inr (rows s, gen s)))"

subsection \<open>write_csv\<close>

fun join :: "string \<Rightarrow> string list \<Rightarrow> string" where
  "join sep [] = []"
| "join sep [x] = x"
| "join sep (x # y # ys) = x @ sep @ join sep (y # ys)"

text \<open>The text write_csv writes to the file: each row joined by commas, then a newline.\<close>

definition csv_text :: "string list list \<Rightarrow> string" where
  "csv_text rws = concat (map (\<lambda>row. join '','' row @ [CHR 0x0A]) rws)"

subsection \<open>write_patients_json\<close>

datatype json = JString string | JBool bool | JArray "json list" | JObject "(string \<times> json) list"

text \<open>The dictionary appended at index \<open>i\<close>; a dictionary keeps the order of its keys.\<close>

definition patient_entry :: "int \<Rightarrow> json" where
  "patient_entry i =
     (let nik = make_nik 3000000000000000 i
      in JObject
        [(''resource'', JObject
           [(''resourceType'', JString ''Patient''),
            (''id'', JString (''patient-'' @ str_int (i + 1))),
            (''active'', JBool True),
            (''identifier'', JArray
               [JObject [(''system'', JString ''https://fhir.kemkes.go.id/id/nik''),
                         (''value'', JString nik)]]),
            (''name'', JArray
               [JObject [(''use'', JString ''official''),
                         (''family'', JString (''PATIENT_'' @ str_int (i + 1))),
                         (''given'', JArray [JString ''TEST''])]]),
            (''telecom'', JArray []),
            (''meta'', JObject
               [(''versionId'', JString ''v001''),
                (''lastUpdated'', JString ''2025-08-22T10:15:30.123456+07:00'')])])])"

text \<open>The value of \<open>patients\<close> that write_patients_json passes to \<open>json.dump\<close>.\<close>

definition patients_of :: "int \<Rightarrow> json" where
  "patients_of n =
     JObject [(''patients_before_phone_update'',
               JArray (fold (\<lambda>i es. es @ [patient_entry i]) [0..n - 1] []))]"

subsection \<open>main\<close>

text \<open>
  What a run leaves behind: the files written, in order (a later write to the same path
  replaces the earlier one), and the lines printed. The JSON file is kept as the value
  dumped, not as its text.
\<close>

datatype file_content = CsvFile string | JsonFile json

record run_result =
  written :: "(string \<times> file_content) list"
  printed :: "string list"

definition mode_name :: "mode \<Rightarrow> string" where
  "mode_name m = (case m of Valid \<Rightarrow> ''valid'' | Invalid \<Rightarrow> ''invalid''
                  | Mixed \<Rightarrow> ''mixed'' | Uniform \<Rightarrow> ''uniform'')"

definition main :: "'g randbelow \<Rightarrow> 'g \<Rightarrow> string \<Rightarrow> cmdline \<Rightarrow> py_error + run_result" where
  "main rb g today cl =
     (let a = parse_args today cl
      in case build_rows rb a g of
           Inl e \<Rightarrow> Inl e
         | Inr (rws, g') \<Rightarrow>
             (let w1 = [(output_path a, CsvFile (csv_text rws))];
                  p1 = [''[ok] CSV written to '' @ output_path a @ '' ('' @ str_int (records a)
                         @ '' rows, mode='' @ mode_name (mode a) @ '')'']
              in if patients_json a \<noteq> '''' then
                   Inr \<lparr>written = w1 @ [(patients_json a, JsonFile (patients_of (records a)))],
                        printed = p1 @ [''[ok] Patients JSON written to '' @ patients_json a]\<rparr>
                 else Inr \<lparr>written = w1, printed = p1\<rparr>))"

text \<open>
  The script: \<open>random.seed(42)\<close>, then main. \<open>seed\<close> is the library's seeding of the
  generator.
\<close>

definition script :: "'g randbelow \<Rightarrow> (int \<Rightarrow> 'g) \<Rightarrow> string \<Rightarrow> cmdline \<Rightarrow> py_error + run_result" where
  "script rb seed today cl = main rb (seed 42) today cl"

text \<open>The CSV text a run writes, when it returns.\<close>

definition csv_output :: "py_error + run_result \<Rightarrow> string option" where
  "csv_output r =
     (case r of
        Inl e \<Rightarrow> None
      | Inr res \<Rightarrow> (case written res of (p, CsvFile t) # ws \<Rightarrow> Some t | _ \<Rightarrow> None))"

section \<open>Vocabulary of the properties\<close>

definition is_digit :: "char \<Rightarrow> bool" where
  "is_digit c = (c \<in> set ''0123456789'')"

definition digit_val :: "char \<Rightarrow> int" where
  "digit_val c = of_char c - 48"

definition dec_value :: "string \<Rightarrow> int" where
  "dec_value s = foldl (\<lambda>acc c. 10 * acc + digit_val c) 0 s"

definition invalid_row :: "string \<Rightarrow> int \<Rightarrow> string list" where
  "invalid_row d i =
     [d, if cyclic INVALID_PHONES i = '''' then '''' else make_nik 9000000000000000 i,
      cyclic INVALID_NAMES i, cyclic INVALID_PHONES i]"

definition valid_shaped_row :: "string \<Rightarrow> int \<Rightarrow> string list" where
  "valid_shaped_row d i =
     [d, make_nik 3200000000000000 i, cyclic VALID_NAMES i, cyclic VALID_PHONES i]"

definition uniform_row :: "string \<Rightarrow> int \<Rightarrow> string list" where
  "uniform_row d i =
     [d, make_nik 3100000000000000 i, ''PATIENT_'' @ str_int (i + 1), cyclic UNIFORM_PHONES i]"

definition nik_bases :: "mode \<Rightarrow> int list" where
  "nik_bases m =
     (case m of Valid \<Rightarrow> [3300000000000000] | Invalid \<Rightarrow> [9000000000000000]
      | Mixed \<Rightarrow> [3200000000000000, 9000000000000000] | Uniform \<Rightarrow> [3100000000000000])"

text \<open>What every iteration appends, whatever the mode.\<close>

definition row_shape :: "args \<Rightarrow> int \<Rightarrow> string list \<Rightarrow> bool" where
  "row_shape a i r =
     (length r = 4 \<and> r ! 0 = date a \<and>
      (r ! 1 = '''' \<or> r ! 1 \<in> (\<lambda>b. make_nik b i) ` set (nik_bases (mode a))))"

text \<open>Concrete inputs: a configuration with the default paths, and a generator that always draws index 0.\<close>

definition sample_args :: "mode \<Rightarrow> int \<Rightarrow> pyfloat \<Rightarrow> args" where
  "sample_args m n r =
     \<lparr>output_path = ''outputs/samples/generated-whatsapp.csv'', records = n, mode = m,
      valid_ratio = r, patients_json = '''', date = ''22-08-2025''\<rparr>"

definition draw_first :: "unit randbelow" where
  "draw_first n g = (0, g)"

text \<open>The command line \<open>--mode uniform --records 5\<close>.\<close>

definition cl_uniform_5 :: cmdline where
  "cl_uniform_5 =
     \<lparr>opt_output = None, opt_records = Some 5, opt_mode = Some Uniform,
      opt_valid_ratio = None, opt_patients_json = None, opt_date = None\<rparr>"

text \<open>The data row of index \<open>i\<close> in mixed mode, for the valid target \<open>vt\<close>.\<close>

definition mixed_row :: "string \<Rightarrow> int \<Rightarrow> int \<Rightarrow> string list" where
  "mixed_row d vt i = (if i < vt then valid_shaped_row d i else invalid_row d i)"

text \<open>The data rows whose phone is one of the valid-phone pool.\<close>

definition valid_phone_rows :: "string list list \<Rightarrow> string list list" where
  "valid_phone_rows rws = filter (\<lambda>row. row ! 3 \<in> set VALID_PHONES) (tl rws)"

text \<open>The command line \<open>--records n\<close>, every other option left to its default.\<close>

definition cl_records :: "int \<Rightarrow> cmdline" where
  "cl_records n =
     \<lparr>opt_output = None, opt_records = Some n, opt_mode = None,
      opt_valid_ratio = None, opt_patients_json = None, opt_date = None\<rparr>"

text \<open>The value under a key of a JSON object.\<close>

definition jfield :: "string \<Rightarrow> json \<Rightarrow> json option" where
  "jfield k j = (case j of JObject kvs \<Rightarrow> map_of kvs k | _ \<Rightarrow> None)"

text \<open>The command line \<open>--mode valid --records 5 --date d\<close>.\<close>

definition cl_valid_5 :: "string \<Rightarrow> cmdline" where
  "cl_valid_5 d =
     \<lparr>opt_output = None, opt_records = Some 5, opt_mode = Some Valid,
      opt_valid_ratio = None, opt_patients_json = None, opt_date = Some d\<rparr>"

section \<open>Auxiliary lemmas\<close>

lemma digit_char_cases:
  "0 \<le> d \<Longrightarrow> d < 10 \<Longrightarrow> d = 0 \<or> d = 1 \<or> d = 2 \<or> d = 3 \<or> d = 4 \<or> d = 5 \<or> d = 6 \<or> d = 7 \<or> d = 8 \<or> d = (9::int)"
  by arith

lemma is_digit_digit_char: "0 \<le> d \<Longrightarrow> d < 10 \<Longrightarrow> is_digit (digit_char d)"
  using digit_char_cases [of d] by (auto simp: is_digit_def digit_char_def)

lemma digit_val_digit_char: "0 \<le> d \<Longrightarrow> d < 10 \<Longrightarrow> digit_val (digit_char d) = d"
  using digit_char_cases [of d] by (auto simp: digit_val_def digit_char_def)

lemma digits_of_nonempty: "digits_of n \<noteq> []"
  by (subst digits_of.simps) simp

lemma digits_of_all_digits: "0 \<le> n \<Longrightarrow> list_all is_digit (digits_of n)"
proof (induction n rule: digits_of.induct)
  case (1 n)
  show ?case
  proof (cases "n < 10")
    case True
    with "1.prems" show ?thesis
      by (subst digits_of.simps) (simp add: is_digit_digit_char)
  next
    case False
    then have "list_all is_digit (digits_of (n div 10))"
      using "1.IH" "1.prems" by simp
    moreover have "is_digit (digit_char (n mod 10))"
      by (rule is_digit_digit_char) simp_all
    ultimately show ?thesis
      using False by (subst digits_of.simps) simp
  qed
qed

lemma dec_value_snoc: "dec_value (s @ [c]) = 10 * dec_value s + digit_val c"
  by (simp add: dec_value_def)

lemma dec_value_digits_of: "0 \<le> n \<Longrightarrow> dec_value (digits_of n) = n"
proof (induction n rule: digits_of.induct)
  case (1 n)
  show ?case
  proof (cases "n < 10")
    case True
    with "1.prems" show ?thesis
      by (subst digits_of.simps) (simp add: dec_value_def digit_val_digit_char)
  next
    case False
    then have "dec_value (digits_of (n div 10)) = n div 10"
      using "1.IH" "1.prems" by simp
    moreover have "digit_val (digit_char (n mod 10)) = n mod 10"
      by (rule digit_val_digit_char) simp_all
    ultimately show ?thesis
      using False by (subst digits_of.simps) (simp add: dec_value_snoc)
  qed
qed

lemma dec_value_zeros: "dec_value (replicate k CHR ''0'' @ s) = dec_value s"
proof -
  have "foldl (\<lambda>acc c. 10 * acc + digit_val c) 0 (replicate k CHR ''0'') = 0"
    by (induction k) (simp_all add: digit_val_def)
  then show ?thesis
    by (simp add: dec_value_def)
qed

lemma dec_value_zero_fill: "dec_value (zero_fill w s) = dec_value s"
  by (simp add: zero_fill_def dec_value_zeros)

lemma length_digits_of_le: "0 < k \<Longrightarrow> n < 10 ^ k \<Longrightarrow> length (digits_of n) \<le> k"
proof (induction n arbitrary: k rule: digits_of.induct)
  case (1 n)
  show ?case
  proof (cases "n < 10")
    case True
    with "1.prems" show ?thesis
      by (subst digits_of.simps) simp
  next
    case False
    with "1.prems" have "1 < k"
      by (cases "k = 1") auto
    then obtain j where k: "k = Suc j" and j: "0 < j"
      by (cases k) auto
    from "1.prems" k have "n < 10 * 10 ^ j"
      by simp
    then have "n div 10 < 10 ^ j"
      by linarith
    then have "length (digits_of (n div 10)) \<le> j"
      using "1.IH" False j by simp
    then show ?thesis
      using False k by (subst digits_of.simps) simp
  qed
qed

lemma length_digits_of_gt: "10 ^ k \<le> n \<Longrightarrow> k < length (digits_of n)"
proof (induction n arbitrary: k rule: digits_of.induct)
  case (1 n)
  show ?case
  proof (cases k)
    case 0
    then show ?thesis
      using digits_of_nonempty [of n] by (cases "digits_of n") auto
  next
    case (Suc j)
    with "1.prems" have ge: "10 * 10 ^ j \<le> n"
      by simp
    have "(1::int) \<le> 10 ^ j"
      by simp
    with ge have n10: "\<not> n < 10"
      by linarith
    from ge have "10 ^ j \<le> n div 10"
      by linarith
    then have "j < length (digits_of (n div 10))"
      using "1.IH" n10 by simp
    then show ?thesis
      using n10 Suc by (subst digits_of.simps) simp
  qed
qed

lemma zero_fill_nonempty: "s \<noteq> [] \<Longrightarrow> zero_fill w s \<noteq> []"
  by (simp add: zero_fill_def)

lemma is_digit_zero: "is_digit CHR ''0''"
  by (simp add: is_digit_def)

lemma not_is_digit_minus: "\<not> is_digit CHR ''-''"
  by (simp add: is_digit_def)

lemma zero_fill_all_digits: "list_all is_digit s \<Longrightarrow> list_all is_digit (zero_fill w s)"
  by (auto simp: zero_fill_def list_all_iff is_digit_zero)

lemma length_zero_fill: "length (zero_fill w s) = max w (length s)"
  by (simp add: zero_fill_def)

lemma format_016d_nonempty: "format_016d x \<noteq> []"
  by (simp add: format_016d_def zero_fill_nonempty digits_of_nonempty)

lemma format_016d_value: "0 \<le> x \<Longrightarrow> dec_value (format_016d x) = x"
  by (simp add: format_016d_def dec_value_zero_fill dec_value_digits_of)

lemma format_016d_all_digits: "0 \<le> x \<Longrightarrow> list_all is_digit (format_016d x)"
  by (simp add: format_016d_def zero_fill_all_digits digits_of_all_digits)

lemma length_format_016d: "0 \<le> x \<Longrightarrow> x < 10 ^ 16 \<Longrightarrow> length (format_016d x) = 16"
  using length_digits_of_le [of 16 x] by (simp add: format_016d_def length_zero_fill)

lemma length_format_016d_long: "10 ^ 16 \<le> x \<Longrightarrow> 16 < length (format_016d x)"
  using length_digits_of_gt [of 16 x] by (simp add: format_016d_def length_zero_fill)

lemma hd_format_016d_neg: "x < 0 \<Longrightarrow> hd (format_016d x) = CHR ''-''"
  by (simp add: format_016d_def)

lemma hd_format_016d_nonneg: "0 \<le> x \<Longrightarrow> is_digit (hd (format_016d x))"
  using format_016d_all_digits [of x] format_016d_nonempty [of x]
  by (cases "format_016d x") simp_all

lemma format_016d_inj: "format_016d x = format_016d y \<Longrightarrow> x = y"
proof -
  assume eq: "format_016d x = format_016d y"
  have neg: "a = b" if "a < 0" "b < 0" "format_016d a = format_016d b" for a b
  proof -
    from that have "zero_fill 15 (digits_of (- a)) = zero_fill 15 (digits_of (- b))"
      by (simp add: format_016d_def)
    then have "dec_value (zero_fill 15 (digits_of (- a))) = dec_value (zero_fill 15 (digits_of (- b)))"
      by simp
    with that show ?thesis
      by (simp add: dec_value_zero_fill dec_value_digits_of)
  qed
  have mixed: False if "a < 0" "0 \<le> b" "format_016d a = format_016d b" for a b
    using hd_format_016d_neg [OF that(1)] hd_format_016d_nonneg [OF that(2)] that(3)
    by (simp add: not_is_digit_minus)
  show ?thesis
  proof (cases "x < 0")
    case True
    show ?thesis
    proof (cases "y < 0")
      case True
      with \<open>x < 0\<close> eq neg [of x y] show ?thesis by simp
    next
      case False
      with \<open>x < 0\<close> eq mixed [of x y] show ?thesis by simp
    qed
  next
    case False
    show ?thesis
    proof (cases "y < 0")
      case True
      with False eq mixed [of y x] show ?thesis by simp
    next
      case False
      then have y: "dec_value (format_016d y) = y"
        by (simp add: format_016d_value)
      from \<open>\<not> x < 0\<close> have "x = dec_value (format_016d x)"
        by (simp add: format_016d_value)
      also have "\<dots> = dec_value (format_016d y)"
        by (simp only: eq)
      also note y
      finally show ?thesis .
    qed
  qed
qed

lemma make_nik_inj: "make_nik b i = make_nik c j \<longleftrightarrow> b + i = c + j"
proof
  assume "make_nik b i = make_nik c j"
  then have "format_016d (b + i) = format_016d (c + j)"
    by (simp only: make_nik_def)
  then show "b + i = c + j"
    by (rule format_016d_inj)
next
  assume "b + i = c + j"
  then show "make_nik b i = make_nik c j"
    by (simp only: make_nik_def)
qed

lemma make_nik_nonempty: "make_nik b i \<noteq> []"
  by (simp add: make_nik_def format_016d_nonempty)

lemma scale2_powi: "scale2 k = 2 powi k"
  by (simp add: scale2_def power_int_def power_one_over)

lemma scale2_pos: "0 < scale2 k"
  by (simp add: scale2_def)

lemma scale2_add: "scale2 (a + b) = scale2 a * scale2 b"
  by (simp add: scale2_powi power_int_add)

lemma scale2_mono: "a \<le> b \<Longrightarrow> scale2 a \<le> scale2 b"
  by (simp add: scale2_powi power_int_increasing)

lemma scale2_strict_mono: "a < b \<Longrightarrow> scale2 a < scale2 b"
  by (simp add: scale2_powi power_int_strict_increasing)

lemma scale2_le_D: "scale2 a \<le> scale2 b \<Longrightarrow> a \<le> b"
  using scale2_strict_mono [of b a] by (cases "a \<le> b") auto

lemma scale2_nonneg_exp: "0 \<le> k \<Longrightarrow> scale2 k = of_int (2 ^ nat k)"
  by (simp add: scale2_def)

lemma ilog2_lower: "0 < q \<Longrightarrow> scale2 (ilog2 q) \<le> q"
proof (cases "1 \<le> q")
  case True
  then have pos: "0 < \<lfloor>q\<rfloor>"
    by (simp add: less_floor_iff)
  then have b1: "1 \<le> bitlen \<lfloor>q\<rfloor>"
    using bitlen_eq_zero_iff [of "\<lfloor>q\<rfloor>"] bitlen_nonneg [of "\<lfloor>q\<rfloor>"] by linarith
  from bitlen_bounds [OF pos] have "2 ^ nat (bitlen \<lfloor>q\<rfloor> - 1) \<le> \<lfloor>q\<rfloor>"
    by simp
  then have "(of_int (2 ^ nat (bitlen \<lfloor>q\<rfloor> - 1)) :: rat) \<le> of_int \<lfloor>q\<rfloor>"
    by (simp only: of_int_le_iff)
  also have "\<dots> \<le> q"
    by simp
  finally show ?thesis
    using True b1 by (simp add: ilog2_def scale2_def)
next
  case False
  assume "0 < q"
  define x where "x = \<lceil>1 / q\<rceil> - 1"
  define k where "k = bitlen x"
  from False \<open>0 < q\<close> have "1 < 1 / q"
    by (simp add: field_simps)
  then have "1 < \<lceil>1 / q\<rceil>"
    by (simp add: less_ceiling_iff)
  then have pos: "0 < x"
    by (simp add: x_def)
  then have k1: "1 \<le> k"
    using bitlen_eq_zero_iff [of x] bitlen_nonneg [of x] by (simp add: k_def)
  from bitlen_bounds [OF pos] have "x < 2 ^ nat k"
    by (simp add: k_def)
  then have "\<lceil>1 / q\<rceil> \<le> 2 ^ nat k"
    by (simp add: x_def)
  then have "(of_int \<lceil>1 / q\<rceil> :: rat) \<le> of_int (2 ^ nat k)"
    by (simp only: of_int_le_iff)
  moreover have "1 / q \<le> of_int \<lceil>1 / q\<rceil>"
    by (rule le_of_int_ceiling)
  ultimately have "1 / q \<le> of_int (2 ^ nat k)"
    by (rule order_trans [rotated])
  then have "1 / q \<le> 2 ^ nat k"
    by simp
  with \<open>0 < q\<close> have "1 / 2 ^ nat k \<le> q"
    by (simp add: field_simps)
  moreover have "ilog2 q = - k"
    using False by (simp add: ilog2_def k_def x_def)
  ultimately show ?thesis
    using k1 by (simp add: scale2_def)
qed

lemma ilog2_upper: "0 < q \<Longrightarrow> q < scale2 (ilog2 q + 1)"
proof (cases "1 \<le> q")
  case True
  then have pos: "0 < \<lfloor>q\<rfloor>"
    by (simp add: less_floor_iff)
  from bitlen_bounds [OF pos] have "\<lfloor>q\<rfloor> + 1 \<le> 2 ^ nat (bitlen \<lfloor>q\<rfloor>)"
    by simp
  then have "(of_int (\<lfloor>q\<rfloor> + 1) :: rat) \<le> of_int (2 ^ nat (bitlen \<lfloor>q\<rfloor>))"
    by (simp only: of_int_le_iff)
  moreover have "q < of_int (\<lfloor>q\<rfloor> + 1)"
    by simp linarith
  ultimately have "q < 2 ^ nat (bitlen \<lfloor>q\<rfloor>)"
    by simp
  then show ?thesis
    using True bitlen_nonneg [of "\<lfloor>q\<rfloor>"] by (simp add: ilog2_def scale2_def)
next
  case False
  assume "0 < q"
  define x where "x = \<lceil>1 / q\<rceil> - 1"
  define k where "k = bitlen x"
  from False \<open>0 < q\<close> have "1 < 1 / q"
    by (simp add: field_simps)
  then have "1 < \<lceil>1 / q\<rceil>"
    by (simp add: less_ceiling_iff)
  then have pos: "0 < x"
    by (simp add: x_def)
  then have k1: "1 \<le> k"
    using bitlen_eq_zero_iff [of x] bitlen_nonneg [of x] by (simp add: k_def)
  from bitlen_bounds [OF pos] have "2 ^ nat (k - 1) < \<lceil>1 / q\<rceil>"
    by (simp add: k_def x_def)
  then have "(of_int (2 ^ nat (k - 1)) :: rat) < 1 / q"
    by (simp only: less_ceiling_iff)
  then have "(2 ^ nat (k - 1) :: rat) < 1 / q"
    by simp
  with \<open>0 < q\<close> have "q < 1 / 2 ^ nat (k - 1)"
    by (simp add: field_simps)
  moreover have "ilog2 q = - k"
    using False by (simp add: ilog2_def k_def x_def)
  ultimately show ?thesis
    using k1 by (cases "k = 1") (simp_all add: scale2_def)
qed

lemma round_half_even_cases:
  "round_half_even q = \<lfloor>q\<rfloor> \<or> (round_half_even q = \<lfloor>q\<rfloor> + 1 \<and> of_int \<lfloor>q\<rfloor> + 1 / 2 \<le> q)"
  by (auto simp: round_half_even_def Let_def)

lemma round_half_even_ge_floor: "\<lfloor>q\<rfloor> \<le> round_half_even q"
  using round_half_even_cases [of q] by auto

lemma round_half_even_of_int: "round_half_even (of_int k) = k"
  by (simp add: round_half_even_def)

lemma round_half_even_le: "q \<le> of_int k \<Longrightarrow> round_half_even q \<le> k"
proof -
  assume le: "q \<le> of_int k"
  then have fl: "\<lfloor>q\<rfloor> \<le> k"
    by (simp add: floor_le_iff)
  from round_half_even_cases [of q] show ?thesis
  proof
    assume "round_half_even q = \<lfloor>q\<rfloor>"
    with fl show ?thesis by simp
  next
    assume h: "round_half_even q = \<lfloor>q\<rfloor> + 1 \<and> of_int \<lfloor>q\<rfloor> + 1 / 2 \<le> q"
    with le have "(of_int \<lfloor>q\<rfloor> :: rat) < of_int k"
      by linarith
    then have "\<lfloor>q\<rfloor> < k"
      by (simp only: of_int_less_iff)
    with h show ?thesis by simp
  qed
qed

lemma round_half_even_ge: "of_int k \<le> q \<Longrightarrow> k \<le> round_half_even q"
proof -
  assume "of_int k \<le> q"
  then have "k \<le> \<lfloor>q\<rfloor>"
    by (simp add: le_floor_iff)
  with round_half_even_ge_floor [of q] show ?thesis
    by linarith
qed

lemma round_half_even_minus: "round_half_even (- q) = - round_half_even q"
proof (cases "q = of_int \<lfloor>q\<rfloor>")
  case True
  then obtain k where "q = of_int k" ..
  then have "- q = of_int (- k)"
    by simp
  then show ?thesis
    using \<open>q = of_int k\<close> by (simp only: round_half_even_of_int)
next
  case False
  have lo: "of_int \<lfloor>q\<rfloor> \<le> q" and hi: "q < of_int \<lfloor>q\<rfloor> + 1"
    by simp_all linarith
  from False lo have lo': "of_int \<lfloor>q\<rfloor> < q"
    by linarith
  have fl: "\<lfloor>- q\<rfloor> = - \<lfloor>q\<rfloor> - 1"
    using lo' hi by (simp add: floor_unique)
  have ev: "even (- \<lfloor>q\<rfloor> - 1) \<longleftrightarrow> odd \<lfloor>q\<rfloor>"
    by simp
  show ?thesis
    unfolding round_half_even_def Let_def fl ev
    by (auto simp: algebra_simps)
qed

lemma round_double_minus: "round_double (- q) = - round_double q"
  by (simp add: round_double_def Let_def round_half_even_minus)

lemma round_double_nonneg: "0 \<le> q \<Longrightarrow> 0 \<le> round_double q"
proof -
  assume "0 \<le> q"
  have "0 \<le> of_int (round_half_even (q / u)) * u" if "0 < u" for u :: rat
  proof -
    from that \<open>0 \<le> q\<close> have "of_int 0 \<le> q / u"
      by simp
    then have "0 \<le> round_half_even (q / u)"
      by (rule round_half_even_ge)
    with that show ?thesis
      by simp
  qed
  then show ?thesis
    by (simp add: round_double_def Let_def scale2_pos)
qed

lemma round_double_nonpos: "q \<le> 0 \<Longrightarrow> round_double q \<le> 0"
  using round_double_nonneg [of "- q"] by (simp add: round_double_minus)

lemma round_double_pos_unfold:
  "0 < q \<Longrightarrow> round_double q =
     of_int (round_half_even (q / scale2 (max (ilog2 q) (- 1022) - 52))) * scale2 (max (ilog2 q) (- 1022) - 52)"
  by (simp add: round_double_def Let_def)

lemma scale2_53: "2 ^ 53 * scale2 k = scale2 (53 + k)"
  by (simp add: scale2_add) (simp add: scale2_def)

lemma scale2_52: "scale2 e = of_int (2 ^ 52) * scale2 (e - 52)"
proof -
  have "scale2 e = scale2 (52 + (e - 52))"
    by simp
  also have "\<dots> = scale2 52 * scale2 (e - 52)"
    by (rule scale2_add)
  finally show ?thesis
    by (simp add: scale2_def)
qed

lemma grid_multiple:
  assumes "e - 52 \<le> k"
  shows "\<exists>j. of_int m * scale2 k = of_int j * scale2 (e - 52)"
proof -
  have "scale2 k = scale2 ((k - (e - 52)) + (e - 52))"
    by simp
  also have "\<dots> = scale2 (k - (e - 52)) * scale2 (e - 52)"
    by (rule scale2_add)
  also have "scale2 (k - (e - 52)) = of_int (2 ^ nat (k - (e - 52)))"
    using assms by (simp add: scale2_nonneg_exp)
  finally have "of_int m * scale2 k = of_int (m * 2 ^ nat (k - (e - 52))) * scale2 (e - 52)"
    by simp
  then show ?thesis ..
qed

lemma coarse_exponent:
  assumes "0 < q" "- 1074 \<le> k" "k < max (ilog2 q) (- 1022) - 52"
  shows "max (ilog2 q) (- 1022) = ilog2 q" and "scale2 (max (ilog2 q) (- 1022)) \<le> q"
proof -
  from assms(2,3) show e: "max (ilog2 q) (- 1022) = ilog2 q"
    by (simp add: max_def split: if_splits)
  from ilog2_lower [OF assms(1)] show "scale2 (max (ilog2 q) (- 1022)) \<le> q"
    by (simp only: e)
qed

lemma round_double_le_pos:
  assumes q: "0 < q" and le: "q \<le> of_int m * scale2 k" and m: "m \<le> 2 ^ 53" and k: "- 1074 \<le> k"
  shows "round_double q \<le> of_int m * scale2 k"
proof -
  define e where "e = max (ilog2 q) (- 1022)"
  define u where "u = scale2 (e - 52)"
  have upos: "0 < u"
    by (simp add: u_def scale2_pos)
  have rd: "round_double q = of_int (round_half_even (q / u)) * u"
    using round_double_pos_unfold [OF q] by (simp only: e_def u_def)
  have "\<exists>j. of_int m * scale2 k = of_int j * u"
  proof (cases "e - 52 \<le> k")
    case True
    then show ?thesis
      unfolding u_def by (rule grid_multiple)
  next
    case False
    then have klt: "k < max (ilog2 q) (- 1022) - 52"
      by (simp add: e_def)
    have "scale2 e \<le> q"
      unfolding e_def using q k klt by (rule coarse_exponent)
    also note le
    also have "of_int m * scale2 k \<le> 2 ^ 53 * scale2 k"
    proof (rule mult_right_mono)
      from m have "(of_int m :: rat) \<le> of_int (2 ^ 53)"
        by (simp only: of_int_le_iff)
      then show "(of_int m :: rat) \<le> 2 ^ 53"
        by simp
      show "0 \<le> scale2 k"
        using scale2_pos [of k] by simp
    qed
    also have "\<dots> = scale2 (53 + k)"
      by (rule scale2_53)
    finally have "e \<le> 53 + k"
      by (rule scale2_le_D)
    with False have "e = 53 + k"
      by simp
    have "of_int m * scale2 k \<le> scale2 e"
      using \<open>of_int m * scale2 k \<le> 2 ^ 53 * scale2 k\<close> scale2_53 [of k] \<open>e = 53 + k\<close> by simp
    moreover have "scale2 e \<le> of_int m * scale2 k"
      using \<open>scale2 e \<le> q\<close> le by (rule order_trans)
    ultimately have "of_int m * scale2 k = scale2 e"
      by (rule order_antisym)
    also have "\<dots> = of_int (2 ^ 52) * u"
      unfolding u_def by (rule scale2_52)
    finally show ?thesis ..
  qed
  then obtain j where j: "of_int m * scale2 k = of_int j * u" ..
  from le j upos have "q / u \<le> of_int j"
    by (simp add: pos_divide_le_eq)
  then have "round_half_even (q / u) \<le> j"
    by (rule round_half_even_le)
  then have "(of_int (round_half_even (q / u)) :: rat) \<le> of_int j"
    by (simp only: of_int_le_iff)
  with upos have "of_int (round_half_even (q / u)) * u \<le> of_int j * u"
    by (simp only: mult_le_cancel_right_pos)
  then show ?thesis
    by (simp only: rd j)
qed

lemma round_double_ge_pos:
  assumes q: "0 < q" and le: "of_int m * scale2 k \<le> q" and m: "m \<le> 2 ^ 53" and k: "- 1074 \<le> k"
  shows "of_int m * scale2 k \<le> round_double q"
proof -
  define e where "e = max (ilog2 q) (- 1022)"
  define u where "u = scale2 (e - 52)"
  have upos: "0 < u"
    by (simp add: u_def scale2_pos)
  have rd: "round_double q = of_int (round_half_even (q / u)) * u"
    using round_double_pos_unfold [OF q] by (simp only: e_def u_def)
  have "\<exists>j. of_int m * scale2 k \<le> of_int j * u \<and> of_int j * u \<le> q"
  proof (cases "e - 52 \<le> k")
    case True
    then have "\<exists>j. of_int m * scale2 k = of_int j * u"
      unfolding u_def by (rule grid_multiple)
    then obtain j where "of_int m * scale2 k = of_int j * u" ..
    with le have "of_int m * scale2 k \<le> of_int j * u \<and> of_int j * u \<le> q"
      by simp
    then show ?thesis ..
  next
    case False
    then have klt: "k < max (ilog2 q) (- 1022) - 52"
      by (simp add: e_def)
    have eq: "scale2 e \<le> q"
      unfolding e_def using q k klt by (rule coarse_exponent)
    have "of_int m * scale2 k \<le> 2 ^ 53 * scale2 k"
    proof (rule mult_right_mono)
      from m have "(of_int m :: rat) \<le> of_int (2 ^ 53)"
        by (simp only: of_int_le_iff)
      then show "(of_int m :: rat) \<le> 2 ^ 53"
        by simp
      show "0 \<le> scale2 k"
        using scale2_pos [of k] by simp
    qed
    also have "\<dots> = scale2 (53 + k)"
      by (rule scale2_53)
    also have "\<dots> \<le> scale2 e"
      using False by (intro scale2_mono) simp
    finally have "of_int m * scale2 k \<le> scale2 e" .
    then have "of_int m * scale2 k \<le> of_int (2 ^ 52) * u \<and> of_int (2 ^ 52) * u \<le> q"
      using eq scale2_52 [of e] by (simp only: u_def)
    then show ?thesis ..
  qed
  then obtain j where j1: "of_int m * scale2 k \<le> of_int j * u" and j2: "of_int j * u \<le> q"
    by blast
  from j2 upos have "of_int j \<le> q / u"
    by (simp add: pos_le_divide_eq)
  then have "j \<le> round_half_even (q / u)"
    by (rule round_half_even_ge)
  then have "(of_int j :: rat) \<le> of_int (round_half_even (q / u))"
    by (simp only: of_int_le_iff)
  with upos have "of_int j * u \<le> of_int (round_half_even (q / u)) * u"
    by (simp only: mult_le_cancel_right_pos)
  with j1 have "of_int m * scale2 k \<le> of_int (round_half_even (q / u)) * u"
    by (rule order_trans)
  then show ?thesis
    by (simp only: rd)
qed

lemma round_double_le:
  assumes m: "\<bar>m\<bar> \<le> 2 ^ 53" and k: "- 1074 \<le> k" and le: "q \<le> of_int m * scale2 k"
  shows "round_double q \<le> of_int m * scale2 k"
proof (cases "0 < q")
  case True
  from m have "m \<le> 2 ^ 53"
    by simp
  with True le show ?thesis
    using k by (rule round_double_le_pos)
next
  case False
  then have q0: "q \<le> 0"
    by simp
  show ?thesis
  proof (cases "0 \<le> m")
    case True
    then have "0 \<le> of_int m * scale2 k"
      using scale2_pos [of k] by simp
    with round_double_nonpos [OF q0] show ?thesis
      by simp
  next
    case False
    then have "of_int m * scale2 k < 0"
      using scale2_pos [of k] by (simp add: mult_neg_pos)
    with le have "0 < - q"
      by simp
    moreover from le have "of_int (- m) * scale2 k \<le> - q"
      by simp
    moreover from m have "- m \<le> 2 ^ 53"
      by simp
    ultimately have "of_int (- m) * scale2 k \<le> round_double (- q)"
      using k by (rule round_double_ge_pos)
    then show ?thesis
      by (simp add: round_double_minus)
  qed
qed

lemma round_double_ge:
  assumes m: "\<bar>m\<bar> \<le> 2 ^ 53" and k: "- 1074 \<le> k" and le: "of_int m * scale2 k \<le> q"
  shows "of_int m * scale2 k \<le> round_double q"
proof -
  from m have "\<bar>- m\<bar> \<le> 2 ^ 53"
    by simp
  moreover note k
  moreover from le have "- q \<le> of_int (- m) * scale2 k"
    by simp
  ultimately have "round_double (- q) \<le> of_int (- m) * scale2 k"
    by (rule round_double_le)
  then show ?thesis
    by (simp add: round_double_minus)
qed

lemma round_double_le_int: "\<bar>m\<bar> \<le> 2 ^ 53 \<Longrightarrow> q \<le> of_int m \<Longrightarrow> round_double q \<le> of_int m"
  using round_double_le [of m 0 q] by (simp add: scale2_def)

lemma round_double_ge_int: "\<bar>m\<bar> \<le> 2 ^ 53 \<Longrightarrow> of_int m \<le> q \<Longrightarrow> of_int m \<le> round_double q"
  using round_double_ge [of m 0 q] by (simp add: scale2_def)

lemma round_double_of_int: "\<bar>n\<bar> \<le> 2 ^ 53 \<Longrightarrow> round_double (of_int n) = of_int n"
  using round_double_le_int [of n "of_int n"] round_double_ge_int [of n "of_int n"]
  by (intro order_antisym) simp_all

lemma small_below_limit: "\<bar>x\<bar> \<le> of_int m \<Longrightarrow> m \<le> 2 ^ 53 \<Longrightarrow> \<not> double_limit \<le> \<bar>x :: rat\<bar>"
proof -
  assume x: "\<bar>x\<bar> \<le> of_int m" and m: "m \<le> 2 ^ 53"
  from m have "(of_int m :: rat) \<le> of_int (2 ^ 53)"
    by (simp only: of_int_le_iff)
  also have "\<dots> < double_limit"
    by (simp add: double_limit_def)
  finally show ?thesis
    using x by linarith
qed

lemma int_to_float_small: "\<bar>n\<bar> \<le> 2 ^ 53 \<Longrightarrow> int_to_float n = Inr (Finite (of_int n))"
proof -
  assume n: "\<bar>n\<bar> \<le> 2 ^ 53"
  have "\<bar>of_int n :: rat\<bar> \<le> of_int \<bar>n\<bar>"
    by simp
  then have "\<not> double_limit \<le> \<bar>of_int n :: rat\<bar>"
    using n by (rule small_below_limit)
  then show ?thesis
    using n by (simp add: int_to_float_def round_double_of_int)
qed

lemma valid_target_small:
  assumes "\<bar>records a\<bar> \<le> 2 ^ 53" and "valid_ratio a = Finite r"
  shows "valid_target_of a =
     (if double_limit \<le> \<bar>round_double (of_int (records a) * r)\<bar> then Inl OverflowError
      else Inr \<lfloor>round_double (of_int (records a) * r)\<rfloor>)"
  using assms by (simp add: valid_target_of_def int_mul_float_def int_to_float_small Let_def)

lemma valid_target_bounded:
  assumes n: "\<bar>records a\<bar> \<le> 2 ^ 53" and r: "valid_ratio a = Finite r"
    and lo: "of_int l \<le> of_int (records a) * r" and hi: "of_int (records a) * r \<le> of_int h"
    and l: "\<bar>l\<bar> \<le> 2 ^ 53" and h: "\<bar>h\<bar> \<le> 2 ^ 53"
  shows "\<exists>vt. valid_target_of a = Inr vt \<and> l \<le> vt \<and> vt \<le> h"
proof -
  define p where "p = round_double (of_int (records a) * r)"
  have p_lo: "of_int l \<le> p"
    unfolding p_def using l lo by (rule round_double_ge_int)
  have p_hi: "p \<le> of_int h"
    unfolding p_def using h hi by (rule round_double_le_int)
  have "\<bar>p\<bar> \<le> of_int (max \<bar>l\<bar> \<bar>h\<bar>)"
    using p_lo p_hi by (simp add: abs_le_iff max_def) linarith
  moreover have "max \<bar>l\<bar> \<bar>h\<bar> \<le> 2 ^ 53"
    using l h by simp
  ultimately have "\<not> double_limit \<le> \<bar>p\<bar>"
    by (rule small_below_limit)
  then have "valid_target_of a = Inr \<lfloor>p\<rfloor>"
    using valid_target_small [OF n r] by (simp add: p_def)
  moreover from p_lo have "l \<le> \<lfloor>p\<rfloor>"
    by (simp add: le_floor_iff)
  moreover from p_hi have "\<lfloor>p\<rfloor> \<le> h"
    by (simp add: floor_le_iff)
  ultimately show ?thesis
    by simp
qed

lemma valid_target_unit:
  assumes "0 \<le> records a" and "records a \<le> 2 ^ 53" and "valid_ratio a = Finite r"
    and "0 \<le> r" and "r \<le> 1"
  shows "\<exists>vt. valid_target_of a = Inr vt \<and> 0 \<le> vt \<and> vt \<le> records a"
proof (rule valid_target_bounded)
  show "\<bar>records a\<bar> \<le> 2 ^ 53" "\<bar>records a\<bar> \<le> 2 ^ 53" "\<bar>0 :: int\<bar> \<le> 2 ^ 53"
    using assms by simp_all
  show "valid_ratio a = Finite r"
    by fact
  show "of_int 0 \<le> of_int (records a) * r"
    using assms by simp
  have "of_int (records a) * r \<le> of_int (records a) * 1"
    using assms by (intro mult_left_mono) simp_all
  then show "of_int (records a) * r \<le> of_int (records a)"
    by simp
qed

lemma valid_target_returns:
  assumes "\<bar>records a\<bar> \<le> 2 ^ 53" and "valid_ratio a = Finite r" and "\<bar>r\<bar> \<le> 1"
  shows "\<exists>vt. valid_target_of a = Inr vt \<and> - \<bar>records a\<bar> \<le> vt \<and> vt \<le> \<bar>records a\<bar>"
proof (rule valid_target_bounded)
  show "\<bar>records a\<bar> \<le> 2 ^ 53" "\<bar>- \<bar>records a\<bar>\<bar> \<le> 2 ^ 53" "\<bar>\<bar>records a\<bar>\<bar> \<le> 2 ^ 53"
    using assms by simp_all
  show "valid_ratio a = Finite r"
    by fact
  have "\<bar>of_int (records a) * r\<bar> \<le> \<bar>of_int (records a)\<bar> * 1"
    unfolding abs_mult using assms by (intro mult_left_mono) simp_all
  then have b: "\<bar>of_int (records a) * r\<bar> \<le> of_int \<bar>records a\<bar>"
    by simp
  then show "of_int (records a) * r \<le> of_int \<bar>records a\<bar>"
    by linarith
  from b show "of_int (- \<bar>records a\<bar>) \<le> of_int (records a) * r"
    by simp
qed

lemma valid_target_ratio_ge_1:
  assumes "0 \<le> records a" and "records a \<le> 2 ^ 53" and "valid_ratio a = Finite r"
    and "1 \<le> r" and "valid_target_of a = Inr vt"
  shows "records a \<le> vt"
proof -
  define p where "p = round_double (of_int (records a) * r)"
  have "of_int (records a) * 1 \<le> of_int (records a) * r"
    using assms by (intro mult_left_mono) simp_all
  then have "of_int (records a) \<le> of_int (records a) * r"
    by simp
  moreover have "\<bar>records a\<bar> \<le> 2 ^ 53"
    using assms by simp
  ultimately have "of_int (records a) \<le> p"
    unfolding p_def by (intro round_double_ge_int)
  then have "records a \<le> \<lfloor>p\<rfloor>"
    by (simp add: le_floor_iff)
  moreover have "vt = \<lfloor>p\<rfloor>"
    using assms valid_target_small [of a r] by (simp add: p_def split: if_splits)
  ultimately show ?thesis
    by simp
qed

lemma int_to_float_sign:
  "0 \<le> n \<Longrightarrow> int_to_float n = Inr y \<Longrightarrow> \<exists>x. y = Finite x \<and> 0 \<le> x"
  using round_double_nonneg [of "of_int n"]
  by (auto simp: int_to_float_def Let_def split: if_splits)

lemma valid_target_ratio_le_0:
  assumes n: "0 \<le> records a" and r: "valid_ratio a = Finite r" and r0: "r \<le> 0"
    and vt: "valid_target_of a = Inr vt"
  shows "vt \<le> 0"
proof -
  from vt obtain y where y: "int_to_float (records a) = Inr y"
    by (auto simp: valid_target_of_def int_mul_float_def split: sum.splits)
  with n obtain x where x: "y = Finite x" "0 \<le> x"
    using int_to_float_sign by blast
  define p where "p = round_double (x * r)"
  from x r0 have "x * r \<le> 0"
    by (simp add: mult_nonneg_nonpos)
  then have "p \<le> 0"
    unfolding p_def by (rule round_double_nonpos)
  then have "\<lfloor>p\<rfloor> \<le> 0"
    by (simp add: floor_le_iff) 
  moreover have "vt = \<lfloor>p\<rfloor>"
    using vt y x r by (simp add: valid_target_of_def int_mul_float_def Let_def p_def split: if_splits)
  ultimately show ?thesis
    by simp
qed

lemma valid_target_nan:
  "valid_ratio a = NaN \<Longrightarrow> valid_target_of a = Inl OverflowError \<or> valid_target_of a = Inl ValueError"
  by (cases "int_to_float (records a)")
    (auto simp: valid_target_of_def int_mul_float_def int_to_float_def Let_def split: if_splits)

lemma step_invalid:
  "mode a = Invalid \<Longrightarrow>
   build_step rb a vt i s = s\<lparr>rows := rows s @ [invalid_row (date a) i]\<rparr>"
  by (simp add: build_step_def invalid_row_def Let_def)

lemma step_uniform:
  "mode a = Uniform \<Longrightarrow>
   build_step rb a vt i s = s\<lparr>rows := rows s @ [uniform_row (date a) i]\<rparr>"
  by (simp add: build_step_def uniform_row_def Let_def)

lemma step_mixed:
  "mode a = Mixed \<Longrightarrow>
   build_step rb a vt i s =
     (if valid_count s < vt
      then s\<lparr>rows := rows s @ [valid_shaped_row (date a) i], valid_count := valid_count s + 1\<rparr>
      else s\<lparr>rows := rows s @ [invalid_row (date a) i]\<rparr>)"
  by (simp add: build_step_def invalid_row_def valid_shaped_row_def Let_def)

lemma step_valid:
  "mode a = Valid \<Longrightarrow>
   \<exists>name phone g'. build_step rb a vt i s =
     s\<lparr>rows := rows s @ [[date a, make_nik 3300000000000000 i, name, phone]], gen := g'\<rparr>"
  by (simp add: build_step_def Let_def split: prod.splits) blast

lemma step_shape: "\<exists>r. rows (build_step rb a vt i s) = rows s @ [r] \<and> row_shape a i r"
proof (cases "mode a")
  case Valid
  with step_valid [of a rb vt i s] show ?thesis
    by (auto simp: row_shape_def nik_bases_def)
next
  case Invalid
  then show ?thesis
    by (simp add: step_invalid invalid_row_def row_shape_def nik_bases_def)
next
  case Mixed
  then show ?thesis
    by (simp add: step_mixed invalid_row_def valid_shaped_row_def row_shape_def nik_bases_def)
next
  case Uniform
  then show ?thesis
    by (simp add: step_uniform uniform_row_def row_shape_def nik_bases_def)
qed

lemma fold_shape:
  "\<exists>rs. rows (fold (build_step rb a vt) js s) = rows s @ rs \<and> list_all2 (row_shape a) js rs"
proof (induction js arbitrary: s)
  case Nil
  show ?case by simp
next
  case (Cons j js)
  from step_shape [of rb a vt j s] obtain r
    where r: "rows (build_step rb a vt j s) = rows s @ [r]" "row_shape a j r"
    by blast
  from Cons.IH [of "build_step rb a vt j s"] obtain rs
    where rs: "rows (fold (build_step rb a vt) js (build_step rb a vt j s)) =
        rows (build_step rb a vt j s) @ rs" "list_all2 (row_shape a) js rs"
    by blast
  from r rs have "rows (fold (build_step rb a vt) (j # js) s) = rows s @ (r # rs)
      \<and> list_all2 (row_shape a) (j # js) (r # rs)"
    by simp
  then show ?case ..
qed

lemma fold_invalid:
  "mode a = Invalid \<Longrightarrow>
   fold (build_step rb a vt) js s = s\<lparr>rows := rows s @ map (invalid_row (date a)) js\<rparr>"
  by (induction js arbitrary: s) (simp_all add: step_invalid)

lemma fold_uniform:
  "mode a = Uniform \<Longrightarrow>
   fold (build_step rb a vt) js s = s\<lparr>rows := rows s @ map (uniform_row (date a)) js\<rparr>"
  by (induction js arbitrary: s) (simp_all add: step_uniform)

lemma fold_mixed:
  "mode a = Mixed \<Longrightarrow>
   rows (fold (build_step rb a vt) js s) =
     rows s @ map (valid_shaped_row (date a)) (take (nat (vt - valid_count s)) js)
            @ map (invalid_row (date a)) (drop (nat (vt - valid_count s)) js)"
proof (induction js arbitrary: s)
  case Nil
  show ?case by simp
next
  case (Cons j js)
  show ?case
  proof (cases "valid_count s < vt")
    case True
    then have "nat (vt - valid_count s) = Suc (nat (vt - (valid_count s + 1)))"
      by simp
    then show ?thesis
      using True Cons.prems Cons.IH [OF Cons.prems, of "build_step rb a vt j s"]
      by (simp add: step_mixed)
  next
    case False
    then have "nat (vt - valid_count s) = 0"
      by simp
    then show ?thesis
      using False Cons.prems Cons.IH [OF Cons.prems, of "build_step rb a vt j s"]
      by (simp add: step_mixed)
  qed
qed

lemma build_rows_Inr:
  "build_rows rb a g = Inr (rws, g') \<longleftrightarrow>
     (\<exists>vt. valid_target_of a = Inr vt \<and> rws = rows (build_loop rb a vt g)
        \<and> g' = gen (build_loop rb a vt g))"
  by (cases "valid_target_of a") (auto simp: build_rows_def Let_def)

lemma build_rows_Inl: "build_rows rb a g = Inl e \<longleftrightarrow> valid_target_of a = Inl e"
  by (cases "valid_target_of a") (auto simp: build_rows_def Let_def)

lemma length_range: "length [0..n - 1] = nat n"
  by simp

lemma nth_range: "k < nat n \<Longrightarrow> [0..n - 1] ! k = int k"
  by (simp add: nth_upto)

lemma range_empty: "n \<le> 0 \<Longrightarrow> [0..n - 1] = []"
  by simp

lemma loop_shape:
  "\<exists>rs. rows (build_loop rb a vt g) = header # rs \<and> length rs = nat (records a)
     \<and> (\<forall>k < nat (records a). row_shape a (int k) (rs ! k))"
proof -
  from fold_shape [of rb a vt "[0..records a - 1]" "\<lparr>rows = [header], valid_count = 0, gen = g\<rparr>"]
  obtain rs where rs: "rows (build_loop rb a vt g) = header # rs"
      "list_all2 (row_shape a) [0..records a - 1] rs"
    by (auto simp: build_loop_def)
  from rs(2) have "nat (records a) = length rs
      \<and> (\<forall>k < nat (records a). row_shape a (int k) (rs ! k))"
    by (simp add: list_all2_conv_all_nth)
  with rs(1) show ?thesis
    by auto
qed

lemma loop_invalid:
  "mode a = Invalid \<Longrightarrow>
   build_loop rb a vt g =
     \<lparr>rows = header # map (invalid_row (date a)) [0..records a - 1], valid_count = 0, gen = g\<rparr>"
  by (simp add: build_loop_def fold_invalid)

lemma loop_uniform:
  "mode a = Uniform \<Longrightarrow>
   build_loop rb a vt g =
     \<lparr>rows = header # map (uniform_row (date a)) [0..records a - 1], valid_count = 0, gen = g\<rparr>"
  by (simp add: build_loop_def fold_uniform)

lemma loop_mixed:
  "mode a = Mixed \<Longrightarrow>
   rows (build_loop rb a vt g) =
     header # map (valid_shaped_row (date a)) (take (nat vt) [0..records a - 1])
            @ map (invalid_row (date a)) (drop (nat vt) [0..records a - 1])"
  by (simp add: build_loop_def fold_mixed)

lemma loop_mixed_gen: "mode a = Mixed \<Longrightarrow> gen (fold (build_step rb a vt) js s) = gen s"
  by (induction js arbitrary: s) (simp_all add: step_mixed)

lemma nth_take_drop_map:
  "k < length js \<Longrightarrow>
   (map f (take m js) @ map h (drop m js)) ! k = (if k < m then f (js ! k) else h (js ! k))"
  by (simp add: nth_append min_def)

lemma cyclic_mem: "pool \<noteq> [] \<Longrightarrow> cyclic pool i \<in> set pool"
proof -
  assume "pool \<noteq> []"
  then have "0 < int (length pool)"
    by simp
  then have "0 \<le> i mod int (length pool)" and "i mod int (length pool) < int (length pool)"
    by (rule pos_mod_sign, rule pos_mod_bound)
  then have "nat (i mod int (length pool)) < length pool"
    by (simp only: nat_less_iff)
  then show ?thesis
    unfolding cyclic_def by (rule nth_mem)
qed

lemma valid_phone_valid_row: "valid_shaped_row d i ! 3 \<in> set VALID_PHONES"
proof -
  have "VALID_PHONES \<noteq> []"
    by (simp add: VALID_PHONES_def)
  then show ?thesis
    by (simp add: valid_shaped_row_def cyclic_mem)
qed

lemma pools_disjoint: "x \<in> set INVALID_PHONES \<Longrightarrow> x \<notin> set VALID_PHONES"
  by (auto simp: INVALID_PHONES_def VALID_PHONES_def)

lemma valid_phone_invalid_row: "invalid_row d i ! 3 \<notin> set VALID_PHONES"
proof -
  have "INVALID_PHONES \<noteq> []"
    by (simp add: INVALID_PHONES_def)
  then have "cyclic INVALID_PHONES i \<in> set INVALID_PHONES"
    by (rule cyclic_mem)
  then show ?thesis
    by (simp add: invalid_row_def pools_disjoint)
qed

lemma round_double_exact:
  "\<bar>m\<bar> \<le> 2 ^ 53 \<Longrightarrow> - 1074 \<le> k \<Longrightarrow> round_double (of_int m * scale2 k) = of_int m * scale2 k"
  using round_double_le [of m k "of_int m * scale2 k"] round_double_ge [of m k "of_int m * scale2 k"]
  by (intro order_antisym) simp_all

lemma round_double_half: "\<bar>n\<bar> \<le> 2 ^ 53 \<Longrightarrow> round_double (of_int n * (1 / 2)) = of_int n / 2"
  using round_double_exact [of n "- 1"] by (simp add: scale2_def)

lemma valid_target_half:
  assumes "\<bar>records a\<bar> \<le> 2 ^ 53" and "valid_ratio a = Finite (1 / 2)"
  shows "valid_target_of a = Inr (records a div 2)"
proof -
  have "\<bar>of_int (records a) / 2 :: rat\<bar> \<le> of_int \<bar>records a\<bar>"
    by simp
  then have "\<not> double_limit \<le> \<bar>of_int (records a) / 2 :: rat\<bar>"
    using assms(1) by (rule small_below_limit)
  moreover have "\<lfloor>of_int (records a) / 2 :: rat\<rfloor> = records a div 2"
    using floor_divide_of_int_eq [of "records a" 2, where ?'a = rat] by simp
  moreover from valid_target_small [OF assms] have "valid_target_of a =
      (if double_limit \<le> \<bar>of_int (records a) / 2 :: rat\<bar> then Inl OverflowError
       else Inr \<lfloor>of_int (records a) / 2 :: rat\<rfloor>)"
    by (simp only: round_double_half [OF assms(1)])
  ultimately show ?thesis
    by (simp only: if_False)
qed

lemma sample_target: "\<bar>n\<bar> \<le> 2 ^ 53 \<Longrightarrow> valid_target_of (sample_args m n (Finite (1 / 2))) = Inr (n div 2)"
  using valid_target_half [of "sample_args m n (Finite (1 / 2))"] by (simp add: sample_args_def)

lemma data_row_nth:
  "0 \<le> i \<Longrightarrow> i < n \<Longrightarrow> tl (hdr # map f [0..n - 1]) ! nat i = f i"
  by (simp add: nth_upto)

lemma invalid_rows:
  "mode a = Invalid \<Longrightarrow> build_rows rb a g = Inr (rws, g') \<Longrightarrow>
   rws = header # map (invalid_row (date a)) [0..records a - 1]"
  by (auto simp: build_rows_Inr loop_invalid)

lemma uniform_rows:
  "mode a = Uniform \<Longrightarrow> build_rows rb a g = Inr (rws, g') \<Longrightarrow>
   rws = header # map (uniform_row (date a)) [0..records a - 1]"
  by (auto simp: build_rows_Inr loop_uniform)

lemma length_pools:
  "length INVALID_PHONES = 6" "length INVALID_NAMES = 4" "length UNIFORM_PHONES = 5"
  "length VALID_PHONES = 5" "length VALID_NAMES = 4"
  by (simp_all add: INVALID_PHONES_def INVALID_NAMES_def UNIFORM_PHONES_def VALID_PHONES_def
      VALID_NAMES_def)

lemma range_5: "[0..5 - 1] = [0, 1, 2, 3, 4 :: int]"
  by (simp add: upto.simps)

lemmas eval_strings =
  make_nik_def format_016d_def zero_fill_def digits_of.simps digit_char_def str_int_def cyclic_def

lemmas eval_pools =
  INVALID_PHONES_def INVALID_NAMES_def UNIFORM_PHONES_def VALID_PHONES_def VALID_NAMES_def

lemma take_drop_map_if:
  assumes "\<And>k. k < length js \<Longrightarrow> (k < m \<longleftrightarrow> P (js ! k))"
  shows "map f (take m js) @ map h (drop m js) = map (\<lambda>i. if P i then f i else h i) js"
proof (rule nth_equalityI)
  show "length (map f (take m js) @ map h (drop m js)) = length (map (\<lambda>i. if P i then f i else h i) js)"
    by simp
next
  fix k
  assume "k < length (map f (take m js) @ map h (drop m js))"
  then have k: "k < length js"
    by simp
  then have "(map f (take m js) @ map h (drop m js)) ! k = (if k < m then f (js ! k) else h (js ! k))"
    by (rule nth_take_drop_map)
  with k assms [OF k] show "(map f (take m js) @ map h (drop m js)) ! k
      = map (\<lambda>i. if P i then f i else h i) js ! k"
    by simp
qed

lemma mixed_loop_rows:
  assumes "mode a = Mixed"
  shows "rows (build_loop rb a vt g) = header # map (mixed_row (date a) vt) [0..records a - 1]"
proof -
  have "map (valid_shaped_row (date a)) (take (nat vt) [0..records a - 1])
        @ map (invalid_row (date a)) (drop (nat vt) [0..records a - 1])
      = map (\<lambda>i. if i < vt then valid_shaped_row (date a) i else invalid_row (date a) i)
          [0..records a - 1]"
  proof (rule take_drop_map_if)
    fix k
    assume "k < length [0..records a - 1]"
    then have "[0..records a - 1] ! k = int k"
      by (simp add: nth_upto)
    then show "k < nat vt \<longleftrightarrow> [0..records a - 1] ! k < vt"
      by (simp only:) linarith
  qed
  then show ?thesis
    using loop_mixed [OF assms, of rb vt g] by (simp add: mixed_row_def [abs_def])
qed

lemma mixed_rows:
  assumes "mode a = Mixed" and "build_rows rb a g = Inr (rws, g')"
  shows "\<exists>vt. valid_target_of a = Inr vt \<and> g' = g
           \<and> rws = header # map (mixed_row (date a) vt) [0..records a - 1]"
proof -
  from assms(2) obtain vt where vt: "valid_target_of a = Inr vt"
      "rws = rows (build_loop rb a vt g)" "g' = gen (build_loop rb a vt g)"
    by (auto simp: build_rows_Inr)
  have "gen (build_loop rb a vt g) = g"
    by (simp add: build_loop_def loop_mixed_gen [OF assms(1)])
  with vt mixed_loop_rows [OF assms(1), of rb vt g] show ?thesis
    by simp
qed

lemma mixed_row_phone: "mixed_row d vt i ! 3 \<in> set VALID_PHONES \<longleftrightarrow> i < vt"
  by (simp add: mixed_row_def valid_phone_valid_row valid_phone_invalid_row)

lemma range_snoc: "[0..int (Suc k) - 1] = [0..int k - 1] @ [int k]"
  using upto_rec2 [of 0 "int k"] by simp

lemma count_below: "int (length (filter (\<lambda>i. i < vt) [0..int k - 1])) = min (int k) (max 0 vt)"
proof (induction k)
  case 0
  show ?case by simp
next
  case (Suc k)
  then show ?case
    by (simp only: range_snoc filter_append length_append) (simp add: min_def max_def)
qed

lemma count_below_int:
  "int (length (filter (\<lambda>i. i < vt) [0..n - 1])) = (if n \<le> 0 then 0 else min n (max 0 vt))"
proof (cases "n \<le> 0")
  case True
  then show ?thesis by simp
next
  case False
  then have "n = int (nat n)"
    by simp
  then show ?thesis
    using count_below [of vt "nat n"] False by simp
qed

lemma count_valid_phone_rows:
  "int (length (valid_phone_rows (hdr # map (mixed_row d vt) [0..n - 1])))
     = (if n \<le> 0 then 0 else min n (max 0 vt))"
proof -
  have "valid_phone_rows (hdr # map (mixed_row d vt) [0..n - 1])
      = map (mixed_row d vt) (filter (\<lambda>i. i < vt) [0..n - 1])"
    by (simp add: valid_phone_rows_def filter_map o_def mixed_row_phone)
  then show ?thesis
    by (simp only: length_map count_below_int)
qed

lemma mixed_rows_all_valid:
  "n \<le> vt \<Longrightarrow> map (mixed_row d vt) [0..n - 1] = map (valid_shaped_row d) [0..n - 1]"
  by (simp add: mixed_row_def)

lemma mixed_rows_all_invalid:
  "vt \<le> 0 \<Longrightarrow> map (mixed_row d vt) [0..n - 1] = map (invalid_row d) [0..n - 1]"
  by (simp add: mixed_row_def)


lemma mixed_row_nik:
  "mixed_row d vt i ! 1 =
     (if i < vt then make_nik 3200000000000000 i
      else if cyclic INVALID_PHONES i = '''' then '''' else make_nik 9000000000000000 i)"
  by (simp add: mixed_row_def valid_shaped_row_def invalid_row_def)

lemmas mixed_row_nik_Suc = mixed_row_nik [unfolded One_nat_def]

lemma mixed_nik_inj:
  assumes "mixed_row d vt i ! 1 = mixed_row d vt j ! 1" and "mixed_row d vt i ! 1 \<noteq> ''''"
  shows "i = j"
proof -
  define b where "b k = (if k < vt then 3200000000000000 else (9000000000000000 :: int))" for k
  have nik: "mixed_row d vt k ! 1 = make_nik (b k) k" if "mixed_row d vt k ! 1 \<noteq> ''''" for k
    using that by (simp add: mixed_row_nik_Suc b_def split: if_splits)
  from assms have "mixed_row d vt j ! 1 \<noteq> ''''"
    by simp
  with assms nik [of i] nik [of j] have "make_nik (b i) i = make_nik (b j) j"
    by simp
  then have "b i + i = b j + j"
    by (simp only: make_nik_inj)
  then show ?thesis
    by (simp add: b_def split: if_splits)
qed

lemma mixed_niks_distinct:
  "distinct (filter (\<lambda>nik. nik \<noteq> '''') (map (\<lambda>row. row ! 1) (map (mixed_row d vt) js))) \<longleftrightarrow>
   distinct (filter (\<lambda>i. mixed_row d vt i ! 1 \<noteq> '''') js)"
proof -
  have "inj_on (\<lambda>i. mixed_row d vt i ! 1) (set (filter (\<lambda>i. mixed_row d vt i ! 1 \<noteq> '''') js))"
  proof (rule inj_onI)
    fix i j
    assume "i \<in> set (filter (\<lambda>i. mixed_row d vt i ! 1 \<noteq> '''') js)"
      and "mixed_row d vt i ! 1 = mixed_row d vt j ! 1"
    then have "mixed_row d vt i ! 1 = mixed_row d vt j ! 1" and "mixed_row d vt i ! 1 \<noteq> ''''"
      by simp_all
    then show "i = j"
      by (rule mixed_nik_inj)
  qed
  then show ?thesis
    by (simp add: filter_map o_def distinct_map)
qed

lemma int_to_float_huge: "2 ^ 1024 \<le> \<bar>n\<bar> \<Longrightarrow> int_to_float n = Inl OverflowError"
proof -
  assume n: "2 ^ 1024 \<le> \<bar>n\<bar>"
  then have "(of_int (2 ^ 1024) :: rat) \<le> of_int \<bar>n\<bar>"
    by (simp only: of_int_le_iff)
  then have big: "of_int 1 * scale2 1024 \<le> \<bar>of_int n :: rat\<bar>"
    by (simp add: scale2_def)
  have "of_int 1 * scale2 1024 \<le> round_double \<bar>of_int n\<bar>"
    by (rule round_double_ge [OF _ _ big]) simp_all
  moreover have "round_double \<bar>of_int n :: rat\<bar> = \<bar>round_double (of_int n)\<bar>"
    using round_double_nonneg [of "of_int n"] round_double_nonpos [of "of_int n"]
    by (cases "0 \<le> n") (simp_all add: abs_if round_double_minus)
  ultimately have "double_limit \<le> \<bar>round_double (of_int n)\<bar>"
    by (simp add: double_limit_def scale2_def)
  then show ?thesis
    by (simp add: int_to_float_def)
qed

lemma build_rows_no_rows:
  "records a \<le> 0 \<Longrightarrow> valid_target_of a = Inr vt \<Longrightarrow> build_rows rb a g = Inr ([header], g)"
  by (simp add: build_rows_def build_loop_def)

lemma header_line: "csv_text [header] = ''last_updated_date,nik_identifier,name,phone_number'' @ [CHR 0x0A]"
  by (simp add: csv_text_def header_def)

lemma csv_output_main:
  "build_rows rb (parse_args today cl) g = Inr (rws, g') \<Longrightarrow>
   csv_output (main rb g today cl) = Some (csv_text rws)"
  by (simp add: main_def csv_output_def Let_def)

lemma valid_target_product_bounded:
  assumes "\<bar>records a\<bar> \<le> 2 ^ 53" and "valid_ratio a = Finite r"
    and "\<bar>of_int (records a) * r\<bar> \<le> 2 ^ 53"
  shows "\<exists>vt. valid_target_of a = Inr vt"
proof -
  have "\<exists>vt. valid_target_of a = Inr vt \<and> - (2 ^ 53) \<le> vt \<and> vt \<le> 2 ^ 53"
  proof (rule valid_target_bounded [OF assms(1,2)])
    show "\<bar>- (2 ^ 53) :: int\<bar> \<le> 2 ^ 53" "\<bar>2 ^ 53 :: int\<bar> \<le> 2 ^ 53"
      by simp_all
    from assms(3) show "of_int (- (2 ^ 53)) \<le> of_int (records a) * r"
      by (simp add: abs_le_iff) 
    from assms(3) show "of_int (records a) * r \<le> of_int (2 ^ 53)"
      by (simp add: abs_le_iff)
  qed
  then show ?thesis
    by blast
qed

lemma nik_bases_pos: "b \<in> set (nik_bases m) \<Longrightarrow> 0 < b"
  by (cases m) (auto simp: nik_bases_def)

lemma data_row_shape:
  assumes "build_rows rb a g = Inr (rws, g')" and "0 \<le> i" and "i < records a"
  shows "row_shape a i (tl rws ! nat i)"
proof -
  from assms(1) obtain vt where rws: "rws = rows (build_loop rb a vt g)"
    by (auto simp: build_rows_Inr)
  from loop_shape [of rb a vt g] obtain rs
    where rs: "rows (build_loop rb a vt g) = header # rs"
      "\<forall>k < nat (records a). row_shape a (int k) (rs ! k)"
    by blast
  from assms(2,3) have "nat i < nat (records a)"
    by simp
  with rs(2) have "row_shape a (int (nat i)) (rs ! nat i)"
    by blast
  with assms(2) rws rs(1) show ?thesis
    by simp
qed

lemma length_format_016d_iff: "0 \<le> x \<Longrightarrow> length (format_016d x) = 16 \<longleftrightarrow> x < 10 ^ 16"
  using length_format_016d [of x] length_format_016d_long [of x]
  by (cases "x < 10 ^ 16") auto

lemma fold_append_entries: "fold (\<lambda>i es. es @ [f i]) js acc = acc @ map f js"
  by (induction js arbitrary: acc) simp_all

lemma patients_of_entries:
  "patients_of n = JObject [(''patients_before_phone_update'', JArray (map patient_entry [0..n - 1]))]"
  by (simp add: patients_of_def fold_append_entries)

lemma parse_args_date:
  "opt_date cl = Some d \<Longrightarrow> parse_args today1 cl = parse_args today2 cl"
  by (simp add: parse_args_def)

lemma csv_text_first_row:
  "length r = 4 \<Longrightarrow> \<exists>t. csv_text (hdr # r # rest) = join '','' hdr @ [CHR 0x0A] @ r ! 0 @ '','' @ t"
proof -
  assume "length r = 4"
  then obtain d x y z where "r = [d, x, y, z]"
    by (cases r; cases "tl r"; cases "tl (tl r)"; cases "tl (tl (tl r))") auto
  then show ?thesis
    by (simp add: csv_text_def)
qed

lemma csv_output_first_date:
  assumes "valid_target_of (parse_args today cl) = Inr vt" and "0 < records (parse_args today cl)"
  shows "\<exists>t. csv_output (main rb g today cl) =
           Some (join '','' header @ [CHR 0x0A] @ date (parse_args today cl) @ '','' @ t)"
proof -
  let ?a = "parse_args today cl"
  from loop_shape [of rb ?a vt g] obtain rs
    where rs: "rows (build_loop rb ?a vt g) = header # rs" "length rs = nat (records ?a)"
      "\<forall>k < nat (records ?a). row_shape ?a (int k) (rs ! k)"
    by blast
  from assms(2) rs(2) obtain r rest where r: "rs = r # rest"
    by (cases rs) auto
  from assms(2) have "0 < nat (records ?a)"
    by simp
  with rs(3) have "row_shape ?a (int 0) (rs ! 0)"
    by blast
  with r have shape: "length r = 4" "r ! 0 = date ?a"
    by (simp_all add: row_shape_def)
  from assms(1) rs(1) r
  have "build_rows rb ?a g = Inr (header # r # rest, gen (build_loop rb ?a vt g))"
    by (simp add: build_rows_Inr)
  then have "csv_output (main rb g today cl) = Some (csv_text (header # r # rest))"
    by (rule csv_output_main)
  with csv_text_first_row [OF shape(1), of header rest] shape(2) show ?thesis
    by auto
qed

lemma csv_output_Some:
  "valid_target_of (parse_args today cl) = Inr vt \<Longrightarrow> \<exists>t. csv_output (main rb g today cl) = Some t"
  by (auto simp: main_def csv_output_def build_rows_def Let_def)

section \<open>The claims\<close>

text \<open>
  C1 (as amended). In every mode, a call of build_rows that returns gives the header row
  followed by exactly max(0, records) data rows: the configured count when it is not
  negative, none when it is. The call returns whenever the floor of
  records * valid_ratio is computed, which holds for every record count of magnitude
  at most 2^53 and every finite ratio of magnitude at most 1.
\<close>

theorem build_rows_row_count:
  "(build_rows rb a g = Inr (rws, g') \<longrightarrow>
      hd rws = header \<and> int (length (tl rws)) = max 0 (records a))
   \<and> (\<bar>records a\<bar> \<le> 2 ^ 53 \<and> valid_ratio a = Finite r \<and> \<bar>r\<bar> \<le> 1 \<longrightarrow>
      (\<exists>rws g'. build_rows rb a g = Inr (rws, g')))"
proof (intro conjI impI)
  assume "build_rows rb a g = Inr (rws, g')"
  then obtain vt where rws: "rws = rows (build_loop rb a vt g)"
    by (auto simp: build_rows_Inr)
  from loop_shape [of rb a vt g] obtain rs
    where "rows (build_loop rb a vt g) = header # rs" "length rs = nat (records a)"
    by blast
  with rws show "hd rws = header" and "int (length (tl rws)) = max 0 (records a)"
    by simp_all
next
  assume "\<bar>records a\<bar> \<le> 2 ^ 53 \<and> valid_ratio a = Finite r \<and> \<bar>r\<bar> \<le> 1"
  then obtain vt where "valid_target_of a = Inr vt"
    using valid_target_returns [of a r] by blast
  then show "\<exists>rws g'. build_rows rb a g = Inr (rws, g')"
    by (simp add: build_rows_Inr)
qed

theorem build_rows_row_count_witness:
  "\<exists>rws g'. build_rows draw_first (sample_args Valid 3 (Finite (1 / 2))) () = Inr (rws, g')
     \<and> hd rws = header \<and> int (length (tl rws)) = 3"
proof -
  let ?a = "sample_args Valid 3 (Finite (1 / 2))"
  have pre: "\<bar>records ?a\<bar> \<le> 2 ^ 53 \<and> valid_ratio ?a = Finite (1 / 2) \<and> \<bar>1 / 2 :: rat\<bar> \<le> 1"
    by (simp add: sample_args_def)
  with build_rows_row_count [of draw_first ?a "()" "[]" "()" "1 / 2"]
  obtain rws g' where ret: "build_rows draw_first ?a () = Inr (rws, g')"
    by blast
  with build_rows_row_count [of draw_first ?a "()" rws g' "1 / 2"]
  have "hd rws = header \<and> int (length (tl rws)) = max 0 (records ?a)"
    by blast
  with ret show ?thesis
    by (simp add: sample_args_def)
qed

theorem build_rows_row_count_counterexample:
  "build_rows draw_first (sample_args Valid (- 1) (Finite (1 / 2))) () = Inr ([header], ())
   \<and> int (length (tl [header])) \<noteq> records (sample_args Valid (- 1) (Finite (1 / 2)))"
proof -
  have "valid_target_of (sample_args Valid (- 1) (Finite (1 / 2))) = Inr (- 1)"
    using sample_target [of "- 1" Valid] by simp
  then show ?thesis
    by (simp add: build_rows_def build_loop_def sample_args_def)
qed

text \<open>
  C4. In invalid mode, the data row of every 0-based index \<open>i\<close> below the record count
  holds the (i mod 6)-th phone of the invalid-phone pool and the (i mod 4)-th name of the
  invalid-name pool; its NIK is 9000000000000000 + i in the format 016d (zero-padded to
  16 characters) when the phone is not empty, and it is empty if and only if the phone is
  empty.
\<close>

theorem invalid_mode_rows:
  assumes "mode a = Invalid" and "build_rows rb a g = Inr (rws, g')"
    and "0 \<le> i" and "i < records a"
  shows "tl rws ! nat i =
           [date a,
            if INVALID_PHONES ! nat (i mod 6) = '''' then ''''
            else format_016d (9000000000000000 + i),
            INVALID_NAMES ! nat (i mod 4),
            INVALID_PHONES ! nat (i mod 6)]
         \<and> ((tl rws ! nat i) ! 1 = '''' \<longleftrightarrow> (tl rws ! nat i) ! 3 = '''')"
proof -
  from assms(1,2) have "rws = header # map (invalid_row (date a)) [0..records a - 1]"
    by (rule invalid_rows)
  with assms(3,4) have "tl rws ! nat i = invalid_row (date a) i"
    by (simp only: data_row_nth)
  then show ?thesis
    using format_016d_nonempty [of "9000000000000000 + i"]
    by (simp add: invalid_row_def cyclic_def length_pools make_nik_def)
qed

theorem invalid_mode_rows_witness:
  "\<exists>rws g'. build_rows draw_first (sample_args Invalid 6 (Finite (1 / 2))) () = Inr (rws, g')
     \<and> tl rws ! 1 = [''22-08-2025'', ''9000000000000001'', ''INVALID FORMAT TWO'', ''7123456789'']
     \<and> tl rws ! 4 = [''22-08-2025'', '''', ''INVALID FORMAT ONE'', '''']"
proof -
  let ?a = "sample_args Invalid 6 (Finite (1 / 2))"
  have "valid_target_of ?a = Inr (6 div 2)"
    by (rule sample_target) simp
  then obtain rws g' where ret: "build_rows draw_first ?a () = Inr (rws, g')"
    by (simp add: build_rows_Inr)
  have m: "mode ?a = Invalid" and n: "(1::int) < records ?a" "(4::int) < records ?a"
    by (simp_all add: sample_args_def)
  from invalid_mode_rows [OF m ret _ n(1)] invalid_mode_rows [OF m ret _ n(2)]
  have "tl rws ! 1 = [''22-08-2025'', ''9000000000000001'', ''INVALID FORMAT TWO'', ''7123456789'']
     \<and> tl rws ! 4 = [''22-08-2025'', '''', ''INVALID FORMAT ONE'', '''']"
    by (simp add: sample_args_def eval_strings eval_pools)
  with ret show ?thesis
    by blast
qed

text \<open>
  C5. In uniform mode, the data row of every 0-based index \<open>i\<close> below the record count
  holds the (i mod 5)-th phone of the uniform-phone pool and the name PATIENT_<i+1>; the
  command line \<open>--mode uniform --records 5\<close> yields the five phones of the pool and the
  names PATIENT_1 to PATIENT_5, in that order.
\<close>

theorem uniform_mode_rows:
  "(mode a = Uniform \<and> build_rows rb a g = Inr (rws, g') \<and> 0 \<le> i \<and> i < records a \<longrightarrow>
      tl rws ! nat i =
        [date a, format_016d (3100000000000000 + i), ''PATIENT_'' @ str_int (i + 1),
         UNIFORM_PHONES ! nat (i mod 5)])
   \<and> (\<exists>rws5 g5. build_rows rb (parse_args today cl_uniform_5) g = Inr (rws5, g5)
        \<and> map (\<lambda>row. row ! 3) (tl rws5) =
            [''081234567890'', ''6285678901234'', ''082345678901'', ''0834-5678-9012'',
             ''85678901234'']
        \<and> map (\<lambda>row. row ! 2) (tl rws5) =
            [''PATIENT_1'', ''PATIENT_2'', ''PATIENT_3'', ''PATIENT_4'', ''PATIENT_5''])"
proof (intro conjI impI)
  assume h: "mode a = Uniform \<and> build_rows rb a g = Inr (rws, g') \<and> 0 \<le> i \<and> i < records a"
  then have "rws = header # map (uniform_row (date a)) [0..records a - 1]"
    using uniform_rows [of a rb g rws g'] by blast
  with h have "tl rws ! nat i = uniform_row (date a) i"
    by (simp only: data_row_nth)
  then show "tl rws ! nat i =
        [date a, format_016d (3100000000000000 + i), ''PATIENT_'' @ str_int (i + 1),
         UNIFORM_PHONES ! nat (i mod 5)]"
    by (simp add: uniform_row_def cyclic_def length_pools make_nik_def)
next
  let ?a = "parse_args today cl_uniform_5"
  have a: "mode ?a = Uniform" "records ?a = 5" "valid_ratio ?a = Finite (1 / 2)" "date ?a = today"
    by (simp_all add: parse_args_def cl_uniform_5_def)
  have "valid_target_of ?a = Inr (records ?a div 2)"
    by (rule valid_target_half) (simp_all add: a)
  then have "build_rows rb ?a g = Inr (header # map (uniform_row today) [0..5 - 1], g)"
    by (simp add: build_rows_Inr loop_uniform a)
  moreover have "map (\<lambda>row. row ! 3) (map (uniform_row today) [0..5 - 1]) =
      [''081234567890'', ''6285678901234'', ''082345678901'', ''0834-5678-9012'', ''85678901234'']"
    by (simp only: range_5) (simp add: uniform_row_def cyclic_def UNIFORM_PHONES_def)
  moreover have "map (\<lambda>row. row ! 2) (map (uniform_row today) [0..5 - 1]) =
      [''PATIENT_1'', ''PATIENT_2'', ''PATIENT_3'', ''PATIENT_4'', ''PATIENT_5'']"
    by (simp only: range_5) (simp add: uniform_row_def str_int_def digits_of.simps digit_char_def)
  ultimately show "\<exists>rws5 g5. build_rows rb ?a g = Inr (rws5, g5)
        \<and> map (\<lambda>row. row ! 3) (tl rws5) =
            [''081234567890'', ''6285678901234'', ''082345678901'', ''0834-5678-9012'',
             ''85678901234'']
        \<and> map (\<lambda>row. row ! 2) (tl rws5) =
            [''PATIENT_1'', ''PATIENT_2'', ''PATIENT_3'', ''PATIENT_4'', ''PATIENT_5'']"
    by simp
qed

theorem uniform_mode_rows_witness:
  "\<exists>rws g'. build_rows draw_first (sample_args Uniform 12 (Finite (1 / 2))) () = Inr (rws, g')
     \<and> tl rws ! 11 = [''22-08-2025'', ''3100000000000011'', ''PATIENT_12'', ''6285678901234'']"
proof -
  let ?a = "sample_args Uniform 12 (Finite (1 / 2))"
  have "valid_target_of ?a = Inr (12 div 2)"
    by (rule sample_target) simp
  then obtain rws g' where ret: "build_rows draw_first ?a () = Inr (rws, g')"
    by (simp add: build_rows_Inr)
  have "mode ?a = Uniform \<and> build_rows draw_first ?a () = Inr (rws, g') \<and> (0::int) \<le> 11
      \<and> 11 < records ?a"
    using ret by (simp add: sample_args_def)
  with uniform_mode_rows [of ?a draw_first "()" rws g' 11 "''''"]
  have "tl rws ! 11 = [''22-08-2025'', ''3100000000000011'', ''PATIENT_12'', ''6285678901234'']"
    by (simp add: sample_args_def eval_strings eval_pools)
  with ret show ?thesis
    by blast
qed

text \<open>
  C2 (as amended). In mixed mode, for every record count from 0 to 2^53 and every
  valid_ratio in [0, 1], the valid target, the floor of the double-precision product
  records * valid_ratio, lies between 0 and the record count; exactly that many data rows
  have a phone of the valid-phone pool, and they are the rows of the indices below the
  target, so every one of them stands before every invalid-shaped row.
\<close>

theorem mixed_mode_split:
  assumes "mode a = Mixed" and "0 \<le> records a" and "records a \<le> 2 ^ 53"
    and "valid_ratio a = Finite r" and "0 \<le> r" and "r \<le> 1"
  shows "\<exists>vt rws. valid_target_of a = Inr vt
           \<and> vt = \<lfloor>round_double (of_int (records a) * r)\<rfloor>
           \<and> 0 \<le> vt \<and> vt \<le> records a
           \<and> build_rows rb a g = Inr (rws, g)
           \<and> int (length (valid_phone_rows rws)) = vt
           \<and> (\<forall>i. 0 \<le> i \<and> i < records a \<longrightarrow>
                 ((tl rws ! nat i) ! 3 \<in> set VALID_PHONES \<longleftrightarrow> i < vt)
                 \<and> tl rws ! nat i =
                     (if i < vt then valid_shaped_row (date a) i else invalid_row (date a) i))"
proof -
  from valid_target_unit [OF assms(2-6)] obtain vt
    where vt: "valid_target_of a = Inr vt" "0 \<le> vt" "vt \<le> records a"
    by blast
  have small: "\<bar>records a\<bar> \<le> 2 ^ 53"
    using assms(2,3) by simp
  from vt(1) valid_target_small [OF small assms(4)]
  have fl: "vt = \<lfloor>round_double (of_int (records a) * r)\<rfloor>"
    by (simp split: if_splits)
  define rws where "rws = header # map (mixed_row (date a) vt) [0..records a - 1]"
  have "rows (build_loop rb a vt g) = rws"
    unfolding rws_def using assms(1) by (rule mixed_loop_rows)
  moreover have "gen (build_loop rb a vt g) = g"
    using assms(1) by (simp add: build_loop_def loop_mixed_gen)
  ultimately have ret: "build_rows rb a g = Inr (rws, g)"
    using vt(1) by (simp add: build_rows_Inr)
  have cnt: "int (length (valid_phone_rows rws)) = vt"
    unfolding rws_def count_valid_phone_rows using vt(2,3) by simp
  have nth: "tl rws ! nat i = mixed_row (date a) vt i" if "0 \<le> i \<and> i < records a" for i
    using that unfolding rws_def by (simp only: data_row_nth)
  have "\<forall>i. 0 \<le> i \<and> i < records a \<longrightarrow>
           ((tl rws ! nat i) ! 3 \<in> set VALID_PHONES \<longleftrightarrow> i < vt)
           \<and> tl rws ! nat i =
               (if i < vt then valid_shaped_row (date a) i else invalid_row (date a) i)"
    using nth by (simp add: mixed_row_phone) (simp add: mixed_row_def)
  with vt fl ret cnt show ?thesis
    by blast
qed

theorem mixed_mode_split_witness:
  "\<exists>rws. build_rows draw_first (sample_args Mixed 3 (Finite (1 / 2))) () = Inr (rws, ())
     \<and> int (length (valid_phone_rows rws)) = 1
     \<and> tl rws ! 0 = [''22-08-2025'', ''3200000000000000'', ''DEWI LESTARI SARI'', ''081234567890'']
     \<and> tl rws ! 1 = [''22-08-2025'', ''9000000000000001'', ''INVALID FORMAT TWO'', ''7123456789'']"
proof -
  let ?a = "sample_args Mixed 3 (Finite (1 / 2))"
  have "mode ?a = Mixed" "0 \<le> records ?a" "records ?a \<le> 2 ^ 53"
      "valid_ratio ?a = Finite (1 / 2)" "(0::rat) \<le> 1 / 2" "(1 / 2 :: rat) \<le> 1"
    by (simp_all add: sample_args_def)
  from mixed_mode_split [OF this, of draw_first "()"] obtain vt rws
    where vt: "valid_target_of ?a = Inr vt"
      and ret: "build_rows draw_first ?a () = Inr (rws, ())"
      and cnt: "int (length (valid_phone_rows rws)) = vt"
      and row: "\<forall>i. 0 \<le> i \<and> i < records ?a \<longrightarrow>
                 ((tl rws ! nat i) ! 3 \<in> set VALID_PHONES \<longleftrightarrow> i < vt)
                 \<and> tl rws ! nat i =
                     (if i < vt then valid_shaped_row (date ?a) i else invalid_row (date ?a) i)"
    by blast
  have "valid_target_of ?a = Inr (3 div 2)"
    by (rule sample_target) simp
  with vt have vt1: "vt = 1"
    by simp
  from row [rule_format, of 0] row [rule_format, of 1]
  have "tl rws ! 0 = valid_shaped_row ''22-08-2025'' 0"
      "tl rws ! 1 = invalid_row ''22-08-2025'' 1"
    by (simp_all add: vt1 sample_args_def)
  then have "tl rws ! 0
      = [''22-08-2025'', ''3200000000000000'', ''DEWI LESTARI SARI'', ''081234567890'']"
    "tl rws ! 1 = [''22-08-2025'', ''9000000000000001'', ''INVALID FORMAT TWO'', ''7123456789'']"
    by (simp_all add: valid_shaped_row_def invalid_row_def eval_strings eval_pools)
  with ret cnt vt1 show ?thesis
    by blast
qed

theorem mixed_mode_split_counterexample:
  "valid_target_of (sample_args Mixed (- 1) (Finite (1 / 2))) = Inr (- 1)
   \<and> build_rows draw_first (sample_args Mixed (- 1) (Finite (1 / 2))) () = Inr ([header], ())
   \<and> int (length (valid_phone_rows [header])) \<noteq> - 1"
proof -
  have "valid_target_of (sample_args Mixed (- 1) (Finite (1 / 2))) = Inr (- 1)"
    using sample_target [of "- 1" Mixed] by simp
  then show ?thesis
    by (simp add: build_rows_def build_loop_def sample_args_def)
qed

text \<open>
  C9. In mixed mode, the non-empty NIK values of the data rows are pairwise distinct: the
  rows below the valid target carry 3200000000000000 + i, the others 9000000000000000 + i
  or nothing, \<open>i\<close> being the row's index.
\<close>

theorem mixed_mode_niks_distinct:
  assumes "mode a = Mixed" and "build_rows rb a g = Inr (rws, g')"
  shows "distinct (filter (\<lambda>nik. nik \<noteq> '''') (map (\<lambda>row. row ! 1) (tl rws)))
         \<and> (\<exists>vt. valid_target_of a = Inr vt
              \<and> (\<forall>i. 0 \<le> i \<and> i < records a \<longrightarrow>
                   (tl rws ! nat i) ! 1 =
                     (if i < vt then format_016d (3200000000000000 + i)
                      else if INVALID_PHONES ! nat (i mod 6) = '''' then ''''
                      else format_016d (9000000000000000 + i))))"
proof -
  from mixed_rows [OF assms] obtain vt
    where vt: "valid_target_of a = Inr vt"
      and rws: "rws = header # map (mixed_row (date a) vt) [0..records a - 1]"
    by blast
  have "distinct (filter (\<lambda>i. mixed_row (date a) vt i ! 1 \<noteq> '''') [0..records a - 1])"
    by simp
  then have d: "distinct (filter (\<lambda>nik. nik \<noteq> '''') (map (\<lambda>row. row ! 1) (tl rws)))"
    unfolding rws by (simp only: list.sel mixed_niks_distinct)
  have "(tl rws ! nat i) ! 1 =
          (if i < vt then format_016d (3200000000000000 + i)
           else if INVALID_PHONES ! nat (i mod 6) = '''' then ''''
           else format_016d (9000000000000000 + i))"
    if "0 \<le> i \<and> i < records a" for i
  proof -
    from that have "tl rws ! nat i = mixed_row (date a) vt i"
      unfolding rws by (simp only: data_row_nth)
    then show ?thesis
      by (simp add: mixed_row_nik_Suc make_nik_def cyclic_def length_pools)
  qed
  with vt d show ?thesis
    by blast
qed

theorem mixed_mode_niks_distinct_witness:
  "\<exists>rws g'. build_rows draw_first (sample_args Mixed 6 (Finite (1 / 2))) () = Inr (rws, g')
     \<and> distinct (filter (\<lambda>nik. nik \<noteq> '''') (map (\<lambda>row. row ! 1) (tl rws)))
     \<and> (tl rws ! 2) ! 1 = ''3200000000000002''
     \<and> (tl rws ! 3) ! 1 = ''9000000000000003''
     \<and> (tl rws ! 4) ! 1 = ''''"
proof -
  let ?a = "sample_args Mixed 6 (Finite (1 / 2))"
  have t: "valid_target_of ?a = Inr (6 div 2)"
    by (rule sample_target) simp
  then obtain rws g' where ret: "build_rows draw_first ?a () = Inr (rws, g')"
    by (simp add: build_rows_Inr)
  have m: "mode ?a = Mixed"
    by (simp add: sample_args_def)
  from mixed_mode_niks_distinct [OF m ret] t
  have d: "distinct (filter (\<lambda>nik. nik \<noteq> '''') (map (\<lambda>row. row ! 1) (tl rws)))"
    and row: "\<forall>i. 0 \<le> i \<and> i < records ?a \<longrightarrow>
                   (tl rws ! nat i) ! 1 =
                     (if i < 3 then format_016d (3200000000000000 + i)
                      else if INVALID_PHONES ! nat (i mod 6) = '''' then ''''
                      else format_016d (9000000000000000 + i))"
    by simp_all
  from row [rule_format, of 2] row [rule_format, of 3] row [rule_format, of 4]
  have "(tl rws ! 2) ! 1 = ''3200000000000002'' \<and> (tl rws ! 3) ! 1 = ''9000000000000003''
      \<and> (tl rws ! 4) ! 1 = ''''"
    by (simp add: sample_args_def eval_strings eval_pools)
  with ret d show ?thesis
    by blast
qed

text \<open>
  C10 (as amended). In mixed mode build_rows has no range check of valid_ratio: it
  returns for every finite ratio, inside [0, 1] or not, whose double-precision product
  with the record count is finite (shown here for products of magnitude up to 2^53),
  and it raises only where the floor of that product does (a NaN or an infinite
  product). When it returns for a non-negative record count, the number of valid-shaped
  records is
  min(records, max(0, valid_target)), with valid_target the floor of the product; a ratio
  of at least 1 (records up to 2^53) makes every record valid-shaped, and a negative
  ratio makes every record invalid-shaped.
\<close>

theorem mixed_mode_any_ratio:
  "(mode a = Mixed \<and> 0 \<le> records a \<and> build_rows rb a g = Inr (rws, g') \<longrightarrow>
      (\<exists>vt. valid_target_of a = Inr vt
         \<and> int (length (valid_phone_rows rws)) = min (records a) (max 0 vt)
         \<and> (\<forall>i. 0 \<le> i \<and> i < records a \<longrightarrow>
               tl rws ! nat i =
                 (if i < vt then valid_shaped_row (date a) i else invalid_row (date a) i))
         \<and> (valid_ratio a = Finite r \<and> 1 \<le> r \<and> records a \<le> 2 ^ 53 \<longrightarrow>
               tl rws = map (valid_shaped_row (date a)) [0..records a - 1])
         \<and> (valid_ratio a = Finite r \<and> r < 0 \<longrightarrow>
               tl rws = map (invalid_row (date a)) [0..records a - 1])))
   \<and> (\<bar>records a\<bar> \<le> 2 ^ 53 \<and> valid_ratio a = Finite r \<and> \<bar>of_int (records a) * r\<bar> \<le> 2 ^ 53 \<longrightarrow>
        (\<exists>rws g'. build_rows rb a g = Inr (rws, g')))"
proof (intro conjI impI)
  assume h: "mode a = Mixed \<and> 0 \<le> records a \<and> build_rows rb a g = Inr (rws, g')"
  then obtain vt where vt: "valid_target_of a = Inr vt"
    and rws: "rws = header # map (mixed_row (date a) vt) [0..records a - 1]"
    using mixed_rows [of a rb g rws g'] by blast
  have cnt: "int (length (valid_phone_rows rws)) = min (records a) (max 0 vt)"
    unfolding rws count_valid_phone_rows using h by simp
  have nth: "\<forall>i. 0 \<le> i \<and> i < records a \<longrightarrow>
      tl rws ! nat i = (if i < vt then valid_shaped_row (date a) i else invalid_row (date a) i)"
    unfolding rws by (simp add: data_row_nth mixed_row_def)
  have hi: "tl rws = map (valid_shaped_row (date a)) [0..records a - 1]"
    if "valid_ratio a = Finite r \<and> 1 \<le> r \<and> records a \<le> 2 ^ 53"
  proof -
    from that h vt have "records a \<le> vt"
      using valid_target_ratio_ge_1 [of a r vt] by blast
    then show ?thesis
      unfolding rws by (simp only: list.sel mixed_rows_all_valid)
  qed
  have lo: "tl rws = map (invalid_row (date a)) [0..records a - 1]"
    if "valid_ratio a = Finite r \<and> r < 0"
  proof -
    from that h vt have "vt \<le> 0"
      using valid_target_ratio_le_0 [of a r vt] by simp
    then show ?thesis
      unfolding rws by (simp only: list.sel mixed_rows_all_invalid)
  qed
  from vt cnt nth hi lo
  show "\<exists>vt. valid_target_of a = Inr vt
         \<and> int (length (valid_phone_rows rws)) = min (records a) (max 0 vt)
         \<and> (\<forall>i. 0 \<le> i \<and> i < records a \<longrightarrow>
               tl rws ! nat i =
                 (if i < vt then valid_shaped_row (date a) i else invalid_row (date a) i))
         \<and> (valid_ratio a = Finite r \<and> 1 \<le> r \<and> records a \<le> 2 ^ 53 \<longrightarrow>
               tl rws = map (valid_shaped_row (date a)) [0..records a - 1])
         \<and> (valid_ratio a = Finite r \<and> r < 0 \<longrightarrow>
               tl rws = map (invalid_row (date a)) [0..records a - 1])"
    by blast
next
  assume "\<bar>records a\<bar> \<le> 2 ^ 53 \<and> valid_ratio a = Finite r \<and> \<bar>of_int (records a) * r\<bar> \<le> 2 ^ 53"
  then obtain vt where "valid_target_of a = Inr vt"
    using valid_target_product_bounded [of a r] by blast
  then show "\<exists>rws g'. build_rows rb a g = Inr (rws, g')"
    by (simp add: build_rows_Inr)
qed

theorem mixed_mode_any_ratio_witness:
  "(\<exists>rws g'. build_rows draw_first (sample_args Mixed 2 (Finite (3 / 2))) () = Inr (rws, g')
      \<and> map (\<lambda>row. row ! 3) (tl rws) = [''081234567890'', ''085678901234''])
   \<and> (\<exists>rws g'. build_rows draw_first (sample_args Mixed 2 (Finite (- 1 / 2))) () = Inr (rws, g')
      \<and> map (\<lambda>row. row ! 3) (tl rws) = [''+630123456'', ''7123456789''])"
proof -
  let ?a = "sample_args Mixed 2 (Finite (3 / 2))"
  let ?b = "sample_args Mixed 2 (Finite (- 1 / 2))"
  have ra: "\<bar>records ?a\<bar> \<le> 2 ^ 53 \<and> valid_ratio ?a = Finite (3 / 2)
      \<and> \<bar>of_int (records ?a) * (3 / 2 :: rat)\<bar> \<le> 2 ^ 53"
    and rb: "\<bar>records ?b\<bar> \<le> 2 ^ 53 \<and> valid_ratio ?b = Finite (- 1 / 2)
      \<and> \<bar>of_int (records ?b) * (- 1 / 2 :: rat)\<bar> \<le> 2 ^ 53"
    by (simp_all add: sample_args_def)
  from ra mixed_mode_any_ratio [of ?a draw_first "()" "[]" "()" "3 / 2"]
  obtain rws1 g1 where r1: "build_rows draw_first ?a () = Inr (rws1, g1)"
    by blast
  from rb mixed_mode_any_ratio [of ?b draw_first "()" "[]" "()" "- 1 / 2"]
  obtain rws2 g2 where r2: "build_rows draw_first ?b () = Inr (rws2, g2)"
    by blast
  have pre1: "mode ?a = Mixed \<and> 0 \<le> records ?a \<and> build_rows draw_first ?a () = Inr (rws1, g1)"
    and c1: "valid_ratio ?a = Finite (3 / 2) \<and> 1 \<le> (3 / 2 :: rat) \<and> records ?a \<le> 2 ^ 53"
    using r1 by (simp_all add: sample_args_def)
  from pre1 c1 mixed_mode_any_ratio [of ?a draw_first "()" rws1 g1 "3 / 2"]
  have "tl rws1 = map (valid_shaped_row (date ?a)) [0..records ?a - 1]"
    by blast
  then have "tl rws1 = map (valid_shaped_row ''22-08-2025'') [0, 1]"
    by (simp add: sample_args_def upto.simps)
  then have p1: "map (\<lambda>row. row ! 3) (tl rws1) = [''081234567890'', ''085678901234'']"
    by (simp add: valid_shaped_row_def cyclic_def VALID_PHONES_def)
  have pre2: "mode ?b = Mixed \<and> 0 \<le> records ?b \<and> build_rows draw_first ?b () = Inr (rws2, g2)"
    and c2: "valid_ratio ?b = Finite (- 1 / 2) \<and> (- 1 / 2 :: rat) < 0"
    using r2 by (simp_all add: sample_args_def)
  from pre2 c2 mixed_mode_any_ratio [of ?b draw_first "()" rws2 g2 "- 1 / 2"]
  have "tl rws2 = map (invalid_row (date ?b)) [0..records ?b - 1]"
    by blast
  then have "tl rws2 = map (invalid_row ''22-08-2025'') [0, 1]"
    by (simp add: sample_args_def upto.simps)
  then have p2: "map (\<lambda>row. row ! 3) (tl rws2) = [''+630123456'', ''7123456789'']"
    by (simp add: invalid_row_def cyclic_def INVALID_PHONES_def)
  from r1 p1 r2 p2 show ?thesis
    by (intro conjI exI [of _ rws1] exI [of _ g1] exI [of _ rws2] exI [of _ g2])
qed

theorem mixed_mode_any_ratio_counterexample:
  "build_rows draw_first (sample_args Mixed 3 NaN) () = Inl ValueError"
  by (simp add: build_rows_def valid_target_of_def int_mul_float_def int_to_float_small
      sample_args_def)

text \<open>
  C8 (as amended). For every record count at most 0 and every mode, build_rows returns
  only the header row, and the program writes a header-only CSV, whenever the floor of
  records * valid_ratio at the top of build_rows is computed; that is so for every such
  count down to -2^53 and every finite ratio of magnitude at most 1. The count is not
  rejected, but an error of that floor is raised by build_rows, as for a count too large
  in magnitude to convert to a float.
\<close>

theorem nonpositive_count_header_only:
  "(records a \<le> 0 \<and> valid_target_of a = Inr vt \<longrightarrow> build_rows rb a g = Inr ([header], g))
   \<and> (records a \<le> 0 \<and> - (2 ^ 53) \<le> records a \<and> valid_ratio a = Finite r \<and> \<bar>r\<bar> \<le> 1 \<longrightarrow>
        build_rows rb a g = Inr ([header], g))
   \<and> (records (parse_args today cl) \<le> 0 \<and> valid_target_of (parse_args today cl) = Inr vt \<longrightarrow>
        csv_output (main rb g today cl) =
          Some (''last_updated_date,nik_identifier,name,phone_number'' @ [CHR 0x0A]))
   \<and> (valid_target_of a = Inl e \<longrightarrow> build_rows rb a g = Inl e)"
proof (intro conjI impI)
  assume "records a \<le> 0 \<and> valid_target_of a = Inr vt"
  then show "build_rows rb a g = Inr ([header], g)"
    using build_rows_no_rows [of a vt rb g] by blast
next
  assume h: "records a \<le> 0 \<and> - (2 ^ 53) \<le> records a \<and> valid_ratio a = Finite r \<and> \<bar>r\<bar> \<le> 1"
  then have "\<bar>records a\<bar> \<le> 2 ^ 53"
    by simp
  with h obtain vt' where "valid_target_of a = Inr vt'"
    using valid_target_returns [of a r] by blast
  with h show "build_rows rb a g = Inr ([header], g)"
    using build_rows_no_rows [of a vt' rb g] by blast
next
  assume "records (parse_args today cl) \<le> 0 \<and> valid_target_of (parse_args today cl) = Inr vt"
  then have "build_rows rb (parse_args today cl) g = Inr ([header], g)"
    using build_rows_no_rows [of "parse_args today cl" vt rb g] by blast
  then have "csv_output (main rb g today cl) = Some (csv_text [header])"
    by (rule csv_output_main)
  then show "csv_output (main rb g today cl) =
      Some (''last_updated_date,nik_identifier,name,phone_number'' @ [CHR 0x0A])"
    by (simp only: header_line)
next
  assume "valid_target_of a = Inl e"
  then show "build_rows rb a g = Inl e"
    by (simp add: build_rows_Inl)
qed

theorem nonpositive_count_header_only_witness:
  "build_rows draw_first (sample_args Invalid (- 3) (Finite (1 / 2))) () = Inr ([header], ())
   \<and> csv_output (main draw_first () ''22-08-2025'' (cl_records 0)) =
       Some (''last_updated_date,nik_identifier,name,phone_number'' @ [CHR 0x0A])"
proof -
  let ?a = "sample_args Invalid (- 3) (Finite (1 / 2))"
  let ?p = "parse_args ''22-08-2025'' (cl_records 0)"
  have "records ?a \<le> 0 \<and> - (2 ^ 53) \<le> records ?a \<and> valid_ratio ?a = Finite (1 / 2)
      \<and> \<bar>1 / 2 :: rat\<bar> \<le> 1"
    by (simp add: sample_args_def)
  with nonpositive_count_header_only [of ?a 0 draw_first "()" "1 / 2" "''''" "cl_records 0"]
  have one: "build_rows draw_first ?a () = Inr ([header], ())"
    by blast
  have "valid_target_of ?p = Inr (records ?p div 2)"
    by (rule valid_target_half) (simp_all add: parse_args_def cl_records_def)
  then have "records ?p \<le> 0 \<and> valid_target_of ?p = Inr 0"
    by (simp add: parse_args_def cl_records_def)
  with nonpositive_count_header_only [of ?a 0 draw_first "()" "1 / 2" "''22-08-2025''" "cl_records 0"]
  have "csv_output (main draw_first () ''22-08-2025'' (cl_records 0)) =
       Some (''last_updated_date,nik_identifier,name,phone_number'' @ [CHR 0x0A])"
    by blast
  with one show ?thesis
    by blast
qed

theorem nonpositive_count_header_only_counterexample:
  "build_rows draw_first (sample_args Valid (- (2 ^ 1024)) (Finite (1 / 2))) () = Inl OverflowError"
proof -
  have "int_to_float (- (2 ^ 1024)) = Inl OverflowError"
    by (rule int_to_float_huge) simp
  then show ?thesis
    by (simp add: build_rows_def valid_target_of_def int_mul_float_def sample_args_def)
qed

text \<open>
  C6 (as amended). In every mode, a data row's NIK that is not empty is the decimal
  representation of base + index, for a base constant of the mode and the row's index,
  written in digits only and zero-padded to at least 16 characters: it has exactly 16
  digits if and only if base + index is below 10^16, and more beyond. Under one base,
  distinct indices always give distinct NIK values.
\<close>

theorem nik_format:
  "(build_rows rb a g = Inr (rws, g') \<and> 0 \<le> i \<and> i < records a \<and> (tl rws ! nat i) ! 1 \<noteq> '''' \<longrightarrow>
      (\<exists>b \<in> set (nik_bases (mode a)).
         (tl rws ! nat i) ! 1 = make_nik b i
         \<and> list_all is_digit (make_nik b i)
         \<and> dec_value (make_nik b i) = b + i
         \<and> (length (make_nik b i) = 16 \<longleftrightarrow> b + i < 10 ^ 16)))
   \<and> (make_nik b0 i = make_nik b0 j \<longleftrightarrow> i = j)"
proof (intro conjI impI)
  assume h: "build_rows rb a g = Inr (rws, g') \<and> 0 \<le> i \<and> i < records a
      \<and> (tl rws ! nat i) ! 1 \<noteq> ''''"
  then have "row_shape a i (tl rws ! nat i)"
    using data_row_shape [of rb a g rws g' i] by blast
  with h obtain b where b: "b \<in> set (nik_bases (mode a))" "(tl rws ! nat i) ! 1 = make_nik b i"
    by (auto simp: row_shape_def)
  from b(1) h have nonneg: "0 \<le> b + i"
    using nik_bases_pos [of b "mode a"] by simp
  then have "list_all is_digit (make_nik b i)" "dec_value (make_nik b i) = b + i"
      "length (make_nik b i) = 16 \<longleftrightarrow> b + i < 10 ^ 16"
    by (simp_all only: make_nik_def format_016d_all_digits format_016d_value
        length_format_016d_iff)
  with b show "\<exists>b \<in> set (nik_bases (mode a)).
         (tl rws ! nat i) ! 1 = make_nik b i
         \<and> list_all is_digit (make_nik b i)
         \<and> dec_value (make_nik b i) = b + i
         \<and> (length (make_nik b i) = 16 \<longleftrightarrow> b + i < 10 ^ 16)"
    by blast
next
  show "make_nik b0 i = make_nik b0 j \<longleftrightarrow> i = j"
    by (simp add: make_nik_inj)
qed

theorem nik_format_witness:
  "\<exists>rws g'. build_rows draw_first (sample_args Invalid 3 (Finite (1 / 2))) () = Inr (rws, g')
     \<and> (tl rws ! 1) ! 1 = ''9000000000000001''
     \<and> list_all is_digit ((tl rws ! 1) ! 1)
     \<and> dec_value ((tl rws ! 1) ! 1) = 9000000000000001
     \<and> length ((tl rws ! 1) ! 1) = 16"
proof -
  let ?a = "sample_args Invalid 3 (Finite (1 / 2))"
  have "valid_target_of ?a = Inr (3 div 2)"
    by (rule sample_target) simp
  then obtain rws g' where ret: "build_rows draw_first ?a () = Inr (rws, g')"
    by (simp add: build_rows_Inr)
  have "mode ?a = Invalid"
    by (simp add: sample_args_def)
  then have "rws = header # map (invalid_row (date ?a)) [0..records ?a - 1]"
    using ret by (rule invalid_rows)
  then have "tl rws ! nat 1 = invalid_row (date ?a) 1"
    by (simp only: list.sel) (simp add: sample_args_def nth_upto)
  then have nik: "(tl rws ! nat 1) ! 1 = ''9000000000000001''"
    by (simp add: invalid_row_def eval_strings eval_pools)
  then have "build_rows draw_first ?a () = Inr (rws, g') \<and> (0::int) \<le> 1 \<and> 1 < records ?a
      \<and> (tl rws ! nat 1) ! 1 \<noteq> ''''"
    using ret by (simp add: sample_args_def)
  with nik_format [of draw_first ?a "()" rws g' 1 0 0]
  obtain b where "(tl rws ! nat 1) ! 1 = make_nik b 1" "list_all is_digit (make_nik b 1)"
      "dec_value (make_nik b 1) = b + 1" "length (make_nik b 1) = 16 \<longleftrightarrow> b + 1 < 10 ^ 16"
      "b \<in> set (nik_bases (mode ?a))"
    by blast
  with nik have "list_all is_digit ((tl rws ! 1) ! 1) \<and> dec_value ((tl rws ! 1) ! 1) = 9000000000000001
      \<and> length ((tl rws ! 1) ! 1) = 16"
    by (simp add: nik_bases_def sample_args_def)
  with ret nik show ?thesis
    by auto
qed

theorem nik_format_counterexample:
  "\<exists>rws g'. build_rows draw_first (sample_args Invalid 1000000000000002 (Finite (1 / 2))) ()
       = Inr (rws, g')
     \<and> (tl rws ! nat 1000000000000001) ! 1 = ''10000000000000001''
     \<and> length ((tl rws ! nat 1000000000000001) ! 1) = 17"
proof -
  let ?a = "sample_args Invalid 1000000000000002 (Finite (1 / 2))"
  have "valid_target_of ?a = Inr (1000000000000002 div 2)"
    by (rule sample_target) simp
  then obtain rws g' where ret: "build_rows draw_first ?a () = Inr (rws, g')"
    by (simp add: build_rows_Inr)
  have "mode ?a = Invalid"
    by (simp add: sample_args_def)
  then have "rws = header # map (invalid_row (date ?a)) [0..records ?a - 1]"
    using ret by (rule invalid_rows)
  moreover have "(0::int) \<le> 1000000000000001" "1000000000000001 < records ?a"
    by (simp_all add: sample_args_def)
  ultimately have "tl rws ! nat 1000000000000001 = invalid_row (date ?a) 1000000000000001"
    by (simp only: data_row_nth)
  then have "(tl rws ! nat 1000000000000001) ! 1 = ''10000000000000001''"
    by (simp add: invalid_row_def eval_strings eval_pools)
  with ret show ?thesis
    by auto
qed

text \<open>
  C7 (as amended). For every record count \<open>n\<close>, write_patients_json builds a mapping
  whose single key patients_before_phone_update holds exactly max(0, n) entries: \<open>n\<close>
  entries when \<open>n\<close> is not negative, none otherwise. The entry of index \<open>i\<close> has the id
  patient-<i+1>, the identifier system https://fhir.kemkes.go.id/id/nik with the value
  3000000000000000 + i in the format 016d (zero-padded to 16 characters), an empty
  telecom list and the constant meta block.
\<close>

theorem patients_json_entries:
  "\<exists>es. patients_of n = JObject [(''patients_before_phone_update'', JArray es)]
     \<and> int (length es) = max 0 n
     \<and> (\<forall>i. 0 \<le> i \<and> i < n \<longrightarrow>
          (\<exists>res. jfield ''resource'' (es ! nat i) = Some res
             \<and> jfield ''id'' res = Some (JString (''patient-'' @ str_int (i + 1)))
             \<and> jfield ''identifier'' res =
                 Some (JArray [JObject [(''system'', JString ''https://fhir.kemkes.go.id/id/nik''),
                                        (''value'', JString (format_016d (3000000000000000 + i)))]])
             \<and> jfield ''telecom'' res = Some (JArray [])
             \<and> jfield ''meta'' res =
                 Some (JObject [(''versionId'', JString ''v001''),
                                (''lastUpdated'', JString ''2025-08-22T10:15:30.123456+07:00'')])))"
proof -
  define es where "es = map patient_entry [0..n - 1]"
  have "patients_of n = JObject [(''patients_before_phone_update'', JArray es)]"
    by (simp only: es_def patients_of_entries)
  moreover have "int (length es) = max 0 n"
    by (simp add: es_def)
  moreover have "\<exists>res. jfield ''resource'' (es ! nat i) = Some res
             \<and> jfield ''id'' res = Some (JString (''patient-'' @ str_int (i + 1)))
             \<and> jfield ''identifier'' res =
                 Some (JArray [JObject [(''system'', JString ''https://fhir.kemkes.go.id/id/nik''),
                                        (''value'', JString (format_016d (3000000000000000 + i)))]])
             \<and> jfield ''telecom'' res = Some (JArray [])
             \<and> jfield ''meta'' res =
                 Some (JObject [(''versionId'', JString ''v001''),
                                (''lastUpdated'', JString ''2025-08-22T10:15:30.123456+07:00'')])"
    if "0 \<le> i \<and> i < n" for i
  proof -
    from that have "es ! nat i = patient_entry i"
      by (simp add: es_def nth_upto)
    then show ?thesis
      by (simp add: patient_entry_def jfield_def make_nik_def)
  qed
  ultimately show ?thesis
    by blast
qed

theorem patients_json_entries_witness:
  "\<exists>es. patients_of 2 = JObject [(''patients_before_phone_update'', JArray es)]
     \<and> length es = 2
     \<and> (\<exists>res. jfield ''resource'' (es ! 1) = Some res
          \<and> jfield ''id'' res = Some (JString ''patient-2'')
          \<and> jfield ''identifier'' res =
              Some (JArray [JObject [(''system'', JString ''https://fhir.kemkes.go.id/id/nik''),
                                     (''value'', JString ''3000000000000001'')]])
          \<and> jfield ''telecom'' res = Some (JArray []))"
proof -
  from patients_json_entries [of 2] obtain es
    where es: "patients_of 2 = JObject [(''patients_before_phone_update'', JArray es)]"
      "int (length es) = max 0 2"
      and ent: "\<forall>i. 0 \<le> i \<and> i < 2 \<longrightarrow>
          (\<exists>res. jfield ''resource'' (es ! nat i) = Some res
             \<and> jfield ''id'' res = Some (JString (''patient-'' @ str_int (i + 1)))
             \<and> jfield ''identifier'' res =
                 Some (JArray [JObject [(''system'', JString ''https://fhir.kemkes.go.id/id/nik''),
                                        (''value'', JString (format_016d (3000000000000000 + i)))]])
             \<and> jfield ''telecom'' res = Some (JArray [])
             \<and> jfield ''meta'' res =
                 Some (JObject [(''versionId'', JString ''v001''),
                                (''lastUpdated'', JString ''2025-08-22T10:15:30.123456+07:00'')]))"
    by blast
  from ent [rule_format, of 1] obtain res
    where "jfield ''resource'' (es ! 1) = Some res"
      "jfield ''id'' res = Some (JString ''patient-2'')"
      "jfield ''identifier'' res =
         Some (JArray [JObject [(''system'', JString ''https://fhir.kemkes.go.id/id/nik''),
                                (''value'', JString ''3000000000000001'')]])"
      "jfield ''telecom'' res = Some (JArray [])"
    by (auto simp: eval_strings)
  with es show ?thesis
    by auto
qed

theorem patients_json_entries_counterexample:
  "patients_of (- 1) = JObject [(''patients_before_phone_update'', JArray [])]
   \<and> int (length ([] :: json list)) \<noteq> - 1"
  by (simp add: patients_of_def)

text \<open>
  C3 (as amended). The generator being seeded with 42 at startup, two runs of the program
  with the same command line that names the date (\<open>--date\<close>) give the same result,
  whatever the clock says at each run; with mode valid and 5 records the result is a CSV
  text, the same byte for byte in both runs. Without \<open>--date\<close> the date column is the
  clock's current UTC date, and runs on different days differ.
\<close>

theorem script_reproducible:
  "(opt_date cl = Some d \<longrightarrow> script rb seed today1 cl = script rb seed today2 cl)
   \<and> (\<exists>t. csv_output (script rb seed today1 (cl_valid_5 d)) = Some t
          \<and> csv_output (script rb seed today2 (cl_valid_5 d)) = Some t)"
proof (intro conjI impI)
  assume "opt_date cl = Some d"
  then have "parse_args today1 cl = parse_args today2 cl"
    by (rule parse_args_date)
  then show "script rb seed today1 cl = script rb seed today2 cl"
    by (simp add: script_def main_def)
next
  let ?a = "parse_args today1 (cl_valid_5 d)"
  have "valid_target_of ?a = Inr (records ?a div 2)"
    by (rule valid_target_half) (simp_all add: parse_args_def cl_valid_5_def)
  then obtain t where t: "csv_output (main rb (seed 42) today1 (cl_valid_5 d)) = Some t"
    using csv_output_Some [of today1 "cl_valid_5 d" _ rb "seed 42"] by blast
  have "parse_args today1 (cl_valid_5 d) = parse_args today2 (cl_valid_5 d)"
    by (rule parse_args_date [of _ d]) (simp add: cl_valid_5_def)
  then have "main rb (seed 42) today1 (cl_valid_5 d) = main rb (seed 42) today2 (cl_valid_5 d)"
    by (simp add: main_def)
  with t show "\<exists>t. csv_output (script rb seed today1 (cl_valid_5 d)) = Some t
          \<and> csv_output (script rb seed today2 (cl_valid_5 d)) = Some t"
    by (simp add: script_def)
qed

theorem script_reproducible_witness:
  "script draw_first (\<lambda>s. ()) ''21-08-2025'' (cl_valid_5 ''22-08-2025'')
     = script draw_first (\<lambda>s. ()) ''23-08-2025'' (cl_valid_5 ''22-08-2025'')
   \<and> (\<exists>t. csv_output (script draw_first (\<lambda>s. ()) ''21-08-2025'' (cl_valid_5 ''22-08-2025'')) = Some t
        \<and> csv_output (script draw_first (\<lambda>s. ()) ''23-08-2025'' (cl_valid_5 ''22-08-2025'')) = Some t)"
proof -
  have "opt_date (cl_valid_5 ''22-08-2025'') = Some ''22-08-2025''"
    by (simp add: cl_valid_5_def)
  with script_reproducible [of "cl_valid_5 ''22-08-2025''" "''22-08-2025''" draw_first "\<lambda>s. ()"
      "''21-08-2025''" "''23-08-2025''"]
  show ?thesis
    by blast
qed

theorem script_reproducible_counterexample:
  "\<forall>rb seed. csv_output (script rb seed ''21-08-2025'' (cl_records 5))
     \<noteq> csv_output (script rb seed ''22-08-2025'' (cl_records 5))"
proof (intro allI notI)
  fix rb :: "'g randbelow" and seed :: "int \<Rightarrow> 'g"
  let ?a1 = "parse_args ''21-08-2025'' (cl_records 5)"
  let ?a2 = "parse_args ''22-08-2025'' (cl_records 5)"
  assume eq: "csv_output (script rb seed ''21-08-2025'' (cl_records 5))
     = csv_output (script rb seed ''22-08-2025'' (cl_records 5))"
  have v1: "valid_target_of ?a1 = Inr (records ?a1 div 2)"
    by (rule valid_target_half) (simp_all add: parse_args_def cl_records_def)
  have v2: "valid_target_of ?a2 = Inr (records ?a2 div 2)"
    by (rule valid_target_half) (simp_all add: parse_args_def cl_records_def)
  have n: "0 < records ?a1" "0 < records ?a2"
    by (simp_all add: parse_args_def cl_records_def)
  from csv_output_first_date [OF v1 n(1), of rb "seed 42"] obtain t1
    where t1: "csv_output (main rb (seed 42) ''21-08-2025'' (cl_records 5)) =
           Some (join '','' header @ [CHR 0x0A] @ date ?a1 @ '','' @ t1)"
    by blast
  from csv_output_first_date [OF v2 n(2), of rb "seed 42"] obtain t2
    where t2: "csv_output (main rb (seed 42) ''22-08-2025'' (cl_records 5)) =
           Some (join '','' header @ [CHR 0x0A] @ date ?a2 @ '','' @ t2)"
    by blast
  from eq t1 t2 have "date ?a1 @ '','' @ t1 = date ?a2 @ '','' @ t2"
    by (simp add: script_def)
  then show False
    by (simp add: parse_args_def cl_records_def)
qed

end
